theory Spec2Isabelle
  imports Main "HOL-Library.List_Lexorder" "HOL-Library.Char_ord" "HOL-Library.Word"
begin

section \<open>Python values and exceptions\<close>

text \<open>
  Names and keys are Python \<open>str\<close>, compared lexicographically character by character;
  they are modelled as \<open>string\<close> with the lexicographic order of
  \<open>HOL-Library.List_Lexorder\<close> over the character order of \<open>HOL-Library.Char_ord\<close>.
  Identities and the B-tree order are Python \<open>int\<close>, modelled as \<open>int\<close>.

  Every exception the code can raise is a value of \<open>error\<close>.  A \<open>KeyError\<close> carries
  the key that was looked up: a name (raised by a directory index) or an identity (raised by
  the dictionary of the inode table).

  Modelled from the spec: fs/exceptions.py is not among the sources.  Its classes
  \<open>FSException\<close>, \<open>FileExists\<close>, \<open>FileNotFound\<close> and \<open>NotDirectory\<close> are the kinds
  \<open>InvalidPath\<close>, \<open>AlreadyExists\<close>, \<open>NotFound\<close> and \<open>NotADirectory\<close> of the error
  taxonomy; none of them is a \<open>KeyError\<close>, so a handler \<open>except KeyError\<close> lets them
  pass.
\<close>

datatype pykey = StrKey string | IntKey int

datatype error =
    FSException string
  | FileExists string
  | FileNotFound string
  | NotDirectory string
  | KeyError pykey
  | IndexError
  | ValueError
  | AttributeError

subsection \<open>List primitives of Python\<close>

text \<open>\<open>a[i]\<close> for an \<open>int\<close> index: a negative index counts from the end, an index out of
  range raises \<open>IndexError\<close>.\<close>

definition py_nth :: "'a list \<Rightarrow> int \<Rightarrow> error + 'a" where
  "py_nth a i =
     (let n = int (length a); j = (if i < 0 then n + i else i)
      in if 0 \<le> j \<and> j < n then Inr (a ! nat j) else Inl IndexError)"

text \<open>The slices \<open>a[i:]\<close> and \<open>a[:i]\<close>: a negative bound counts from the end and is
  clipped at the start of the list.\<close>

definition py_from :: "'a list \<Rightarrow> int \<Rightarrow> 'a list" where
  "py_from a i = drop (nat (if i < 0 then int (length a) + i else i)) a"

definition py_upto :: "'a list \<Rightarrow> int \<Rightarrow> 'a list" where
  "py_upto a i = take (nat (if i < 0 then int (length a) + i else i)) a"

text \<open>\<open>a.insert(i, x)\<close> for \<open>i \<ge> 0\<close>: an index beyond the end appends.\<close>

definition list_insert :: "nat \<Rightarrow> 'a \<Rightarrow> 'a list \<Rightarrow> 'a list" where
  "list_insert i x a = take i a @ x # drop i a"

text \<open>\<open>del a[i]\<close> for \<open>0 \<le> i < len(a)\<close>.\<close>

definition list_delete :: "nat \<Rightarrow> 'a list \<Rightarrow> 'a list" where
  "list_delete i a = take i a @ drop (Suc i) a"

text \<open>\<open>a.index(x)\<close>: the first position of \<open>x\<close>; \<open>None\<close> stands for the \<open>ValueError\<close>
  of an absent element.\<close>

fun list_index :: "'a list \<Rightarrow> 'a \<Rightarrow> nat option" where
  "list_index [] x = None"
| "list_index (y # ys) x =
     (if y = x then Some 0 else (case list_index ys x of None \<Rightarrow> None | Some j \<Rightarrow> Some (Suc j)))"

text \<open>\<open>bisect.bisect_left(a, x)\<close>, the binary search of the standard library:
  \<^verbatim>\<open>
  lo, hi = 0, len(a)
  while lo < hi:
      mid = (lo + hi) // 2
      if a[mid] < x: lo = mid + 1
      else: hi = mid
  return lo
  \<close>\<close>

function bisect_loop :: "'a::linorder list \<Rightarrow> 'a \<Rightarrow> nat \<Rightarrow> nat \<Rightarrow> nat" where
  "bisect_loop a x lo hi =
     (if lo < hi then
        (let mid = (lo + hi) div 2
         in if a ! mid < x then bisect_loop a x (mid + 1) hi else bisect_loop a x lo mid)
      else lo)"
  by pat_completeness auto
termination
  by (relation "measure (\<lambda>(a, x, lo, hi). hi - lo)") auto

definition bisect_left :: "'a::linorder list \<Rightarrow> 'a \<Rightarrow> nat" where
  "bisect_left a x = bisect_loop a x 0 (length a)"

section \<open>The B-tree of fs/index/btree.py\<close>

text \<open>A \<open>_Node\<close> has the four slots \<open>leaf\<close>, \<open>keys\<close>, \<open>vals\<close> (used in a leaf) and
  \<open>kids\<close> (used in an internal node).  Nodes are never shared between two parents, so the
  object graph is a tree and in-place mutation of a node is the replacement of a subtree.\<close>

datatype node = Node (leaf: bool) (keys: "string list") (vals: "int list") (kids: "node list")

record btree =
  bt_root :: node
  bt_order :: int
  bt_min :: int

definition BTree_init :: "int \<Rightarrow> btree" where
  "BTree_init order = \<lparr>bt_root = Node True [] [] [], bt_order = order, bt_min = order div 2\<rparr>"

text \<open>The number of nodes of a tree, the measure of the recursive descents.\<close>

fun weight :: "node \<Rightarrow> nat" where
  "weight (Node lf ks vs cs) = Suc (sum_list (map weight cs))"

subsection \<open>\<open>_split_child\<close>\<close>

text \<open>
  \<open>_split_child(parent, i)\<close> mutates \<open>parent\<close> and its child \<open>y = parent.kids[i]\<close>; the
  model returns the new parent.  The pivot \<open>y.keys[mid]\<close> is read first, so an
  \<open>IndexError\<close> there leaves everything unchanged.  The left node keeps the pivot:
  \<open>y.keys[:mid + 1]\<close>.
\<close>

definition split_child :: "int \<Rightarrow> node \<Rightarrow> nat \<Rightarrow> error + node" where
  "split_child order parent i =
     (if i < length (kids parent) then
        (let y = kids parent ! i;
             mid = order div 2
         in case py_nth (keys y) mid of
              Inl e \<Rightarrow> Inl e
            | Inr pivot \<Rightarrow>
               (let z = (if leaf y
                         then Node (leaf y) (py_from (keys y) (mid + 1)) (py_from (vals y) (mid + 1)) []
                         else Node (leaf y) (py_from (keys y) (mid + 1)) [] (py_from (kids y) (mid + 1)));
                    y' = (if leaf y
                          then Node (leaf y) (py_upto (keys y) (mid + 1)) (py_upto (vals y) (mid + 1)) (kids y)
                          else Node (leaf y) (py_upto (keys y) (mid + 1)) (vals y) (py_upto (kids y) (mid + 1)))
                in Inr (Node (leaf parent)
                          (list_insert i pivot (keys parent))
                          (vals parent)
                          (list_insert (i + 1) z ((kids parent)[i := y'])))))
      else Inl IndexError)"

subsection \<open>\<open>_insert_non_full\<close>\<close>

text \<open>
  The loop \<^verbatim>\<open>while i >= 0 and key < node.keys[i]: i -= 1\<close> followed by \<^verbatim>\<open>i += 1\<close>,
  started at \<open>i = len(node.keys) - 1\<close>.  The third argument of \<open>scan_keys\<close> is \<open>i + 1\<close>,
  and the result is the value of \<open>i\<close> after the increment.
\<close>

fun scan_keys :: "'a::linorder list \<Rightarrow> 'a \<Rightarrow> nat \<Rightarrow> nat" where
  "scan_keys ks key 0 = 0"
| "scan_keys ks key (Suc i) = (if key < ks ! i then scan_keys ks key i else Suc i)"

lemma weight_nth: "i < length cs \<Longrightarrow> weight (cs ! i) < Suc (sum_list (map weight cs))"
proof -
  assume "i < length cs"
  then have "weight (cs ! i) \<in> set (map weight cs)" by simp
  then have "weight (cs ! i) \<le> sum_list (map weight cs)" by (simp add: member_le_sum_list)
  then show ?thesis by simp
qed

lemma sum_list_take_le: "sum_list (map weight (take n cs)) \<le> sum_list (map weight cs)"
proof -
  have "sum_list (map weight cs) = sum_list (map weight (take n cs)) + sum_list (map weight (drop n cs))"
    by (metis append_take_drop_id map_append sum_list_append)
  then show ?thesis by simp
qed

lemma sum_list_drop_le: "sum_list (map weight (drop n cs)) \<le> sum_list (map weight cs)"
proof -
  have "sum_list (map weight cs) = sum_list (map weight (take n cs)) + sum_list (map weight (drop n cs))"
    by (metis append_take_drop_id map_append sum_list_append)
  then show ?thesis by simp
qed

lemma split_child_weight:
  assumes "split_child order (Node lf ks vs cs) i = Inr (Node lf' ks' vs' cs')"
    and "j < length cs'" and "j = i \<or> j = i + 1"
  shows "weight (cs' ! j) < Suc (sum_list (map weight cs))"
proof -
  from assms(1) have i: "i < length cs"
    by (auto simp: split_child_def split: if_splits)
  obtain ylf yks yvs ycs where y: "cs ! i = Node ylf yks yvs ycs" by (cases "cs ! i") auto
  have wy: "weight (cs ! i) < Suc (sum_list (map weight cs))" using i by (rule weight_nth)
  from assms(1) i y obtain y' z where
    cs': "cs' = list_insert (i + 1) z (cs[i := y'])"
    and wz: "weight z \<le> weight (cs ! i)" and wy': "weight y' \<le> weight (cs ! i)"
    by (auto simp: split_child_def Let_def py_from_def py_upto_def sum_list_take_le sum_list_drop_le
        split: if_splits sum.splits)
  have "cs' ! i = y'" using i by (simp add: cs' list_insert_def nth_append)
  moreover have "cs' ! (i + 1) = z" using i by (simp add: cs' list_insert_def nth_append)
  ultimately show ?thesis using assms(3) wz wy' wy by auto
qed

function insert_non_full :: "int \<Rightarrow> node \<Rightarrow> string \<Rightarrow> int \<Rightarrow> error + node" where
  "insert_non_full order (Node lf ks vs cs) key val =
     (if lf then
        (let ks' = list_insert (bisect_left ks key) key ks
         in case list_index ks' key of
              None \<Rightarrow> Inl ValueError
            | Some j \<Rightarrow> Inr (Node lf ks' (list_insert j val vs) cs))
      else
        (let i = scan_keys ks key (length ks)
         in if i < length cs then
              (if int (length (keys (cs ! i))) = order - 1 then
                 (case split_child order (Node lf ks vs cs) i of
                    Inl e \<Rightarrow> Inl e
                  | Inr (Node lf' ks' vs' cs') \<Rightarrow>
                      (if i < length ks' then
                         (let i' = (if key > ks' ! i then i + 1 else i)
                          in if i' < length cs' then
                               (case insert_non_full order (cs' ! i') key val of
                                  Inl e \<Rightarrow> Inl e
                                | Inr c \<Rightarrow> Inr (Node lf' ks' vs' (cs'[i' := c])))
                             else Inl IndexError)
                       else Inl IndexError))
               else
                 (case insert_non_full order (cs ! i) key val of
                    Inl e \<Rightarrow> Inl e
                  | Inr c \<Rightarrow> Inr (Node lf ks vs (cs[i := c]))))
            else Inl IndexError))"
  by pat_completeness auto
termination
proof (relation "measure (\<lambda>(order, n, key, val). weight n)", goal_cases)
  case 1
  show ?case by simp
next
  case (2 order lf ks vs cs key val i r lf' ks' vs' cs' i')
  then show ?case
    using split_child_weight [of order lf ks vs cs i lf' ks' vs' cs' i']
    by (auto split: if_splits)
next
  case (3 order lf ks vs cs key val i)
  then show ?case by (simp add: weight_nth)
qed

subsection \<open>\<open>insert\<close>, \<open>_search\<close>, \<open>get\<close>, \<open>delete\<close>, \<open>iter\<close>\<close>

text \<open>An exception raised inside \<open>insert\<close> ends the run: the result is the exception alone,
  and the partly mutated tree it leaves behind is not modelled.\<close>

definition BTree_insert :: "btree \<Rightarrow> string \<Rightarrow> int \<Rightarrow> error + btree" where
  "BTree_insert t key val =
     (let r = bt_root t
      in if int (length (keys r)) = bt_order t - 1 then
           (case split_child (bt_order t) (Node False [] [] [r]) 0 of
              Inl e \<Rightarrow> Inl e
            | Inr s \<Rightarrow>
               (case insert_non_full (bt_order t) s key val of
                  Inl e \<Rightarrow> Inl e
                | Inr n \<Rightarrow> Inr (t\<lparr>bt_root := n\<rparr>)))
         else
           (case insert_non_full (bt_order t) r key val of
              Inl e \<Rightarrow> Inl e
            | Inr n \<Rightarrow> Inr (t\<lparr>bt_root := n\<rparr>)))"

text \<open>\<open>_search\<close> returns the leaf holding the key and the position of the key in it, or
  \<open>(None, -1)\<close>, here \<open>None\<close>.  On an exact match in an internal node the descent goes to
  the child on the right of the matched key.\<close>

function search :: "node \<Rightarrow> string \<Rightarrow> error + (node \<times> nat) option" where
  "search (Node lf ks vs cs) key =
     (let i = bisect_left ks key
      in if lf then
           (if i < length ks \<and> ks ! i = key then Inr (Some (Node lf ks vs cs, i)) else Inr None)
         else
           (let i' = (if i < length ks \<and> ks ! i = key then i + 1 else i)
            in if i' < length cs then search (cs ! i') key else Inl IndexError))"
  by pat_completeness auto
termination
  by (relation "measure (\<lambda>(n, key). weight n)") (auto simp: weight_nth)

definition BTree_get :: "btree \<Rightarrow> string \<Rightarrow> error + int" where
  "BTree_get t key =
     (case search (bt_root t) key of
        Inl e \<Rightarrow> Inl e
      | Inr None \<Rightarrow> Inl (KeyError (StrKey key))
      | Inr (Some (n, idx)) \<Rightarrow> py_nth (vals n) (int idx))"

text \<open>\<open>delete\<close> finds the leaf with \<open>_search\<close> and deletes the key and the value at the
  position found, in place.  \<open>delete_node\<close> is the descent of \<open>_search\<close> with the two
  \<open>del\<close> statements applied to the leaf it reaches; \<open>None\<close> is the result \<open>(None, -1)\<close>.\<close>

function delete_node :: "node \<Rightarrow> string \<Rightarrow> error + node option" where
  "delete_node (Node lf ks vs cs) key =
     (let i = bisect_left ks key
      in if lf then
           (if i < length ks \<and> ks ! i = key then
              (if i < length vs then Inr (Some (Node lf (list_delete i ks) (list_delete i vs) cs))
               else Inl IndexError)
            else Inr None)
         else
           (let i' = (if i < length ks \<and> ks ! i = key then i + 1 else i)
            in if i' < length cs then
                 (case delete_node (cs ! i') key of
                    Inl e \<Rightarrow> Inl e
                  | Inr None \<Rightarrow> Inr None
                  | Inr (Some c) \<Rightarrow> Inr (Some (Node lf ks vs (cs[i' := c]))))
               else Inl IndexError))"
  by pat_completeness auto
termination
  by (relation "measure (\<lambda>(n, key). weight n)") (auto simp: weight_nth)

definition BTree_delete :: "btree \<Rightarrow> string \<Rightarrow> error + btree" where
  "BTree_delete t key =
     (case delete_node (bt_root t) key of
        Inl e \<Rightarrow> Inl e
      | Inr None \<Rightarrow> Inl (KeyError (StrKey key))
      | Inr (Some n) \<Rightarrow> Inr (t\<lparr>bt_root := n\<rparr>))"

text \<open>\<open>_iter_node\<close>: a leaf yields its keys; an internal node yields, for each child in
  turn, the child's keys and then \<open>keys[i]\<close> when there is one.\<close>

fun weave :: "'a list list \<Rightarrow> 'a list \<Rightarrow> 'a list" where
  "weave [] ks = []"
| "weave (c # cs) [] = c @ weave cs []"
| "weave (c # cs) (k # ks) = c @ k # weave cs ks"

fun iter_node :: "node \<Rightarrow> string list" where
  "iter_node (Node lf ks vs cs) = (if lf then ks else weave (map iter_node cs) ks)"

definition BTree_iter :: "btree \<Rightarrow> string list" where
  "BTree_iter t = iter_node (bt_root t)"

text \<open>A run of insertions from left to right, stopping at the first exception.\<close>

fun insert_all :: "btree \<Rightarrow> (string \<times> int) list \<Rightarrow> error + btree" where
  "insert_all t [] = Inr t"
| "insert_all t ((k, v) # kvs) =
     (case BTree_insert t k v of Inl e \<Rightarrow> Inl e | Inr t' \<Rightarrow> insert_all t' kvs)"

section \<open>The object model of fs/node.py and the inode table\<close>

subsection \<open>The clock\<close>

text \<open>
  \<open>Meta\<close> reads \<open>datetime.now(timezone.utc)\<close> once for \<open>created\<close> and once for
  \<open>modified\<close>.  The clock is the sequence of the values the coming readings return; a
  reading takes the head of the sequence.  Nothing is assumed about the values.
\<close>

type_synonym time = nat
type_synonym clock = "nat \<Rightarrow> time"

record meta =
  created :: time
  modified :: time
  fsize :: int
  perms :: string

definition Meta_init :: "clock \<Rightarrow> meta \<times> clock" where
  "Meta_init clk =
     (\<lparr>created = clk 0, modified = clk 1, fsize = 0, perms = ''rw''\<rparr>, \<lambda>n. clk (n + 2))"

subsection \<open>The index of a directory\<close>

text \<open>
  \<open>Directory.children\<close> is an \<open>RBTree\<close>, the class of fs/index/rbtree.py, which
  inherits everything from \<open>bintrees.RBTree\<close>: a mutable mapping kept in key order.  The
  model is the list of its items in strictly increasing key order, with the four operations
  \<open>Directory\<close> uses: \<open>t[k] = v\<close>, \<open>t[k]\<close>, \<open>del t[k]\<close> and \<open>t.keys()\<close>.
\<close>

type_synonym rbtree = "(string \<times> int) list"

fun RBTree_setitem :: "rbtree \<Rightarrow> string \<Rightarrow> int \<Rightarrow> rbtree" where
  "RBTree_setitem [] k v = [(k, v)]"
| "RBTree_setitem ((k', v') # r) k v =
     (if k < k' then (k, v) # (k', v') # r
      else if k = k' then (k, v) # r
      else (k', v') # RBTree_setitem r k v)"

fun RBTree_getitem :: "rbtree \<Rightarrow> string \<Rightarrow> error + int" where
  "RBTree_getitem [] k = Inl (KeyError (StrKey k))"
| "RBTree_getitem ((k', v') # r) k = (if k = k' then Inr v' else RBTree_getitem r k)"

fun RBTree_delitem :: "rbtree \<Rightarrow> string \<Rightarrow> error + rbtree" where
  "RBTree_delitem [] k = Inl (KeyError (StrKey k))"
| "RBTree_delitem ((k', v') # r) k =
     (if k = k' then Inr r
      else (case RBTree_delitem r k of Inl e \<Rightarrow> Inl e | Inr r' \<Rightarrow> Inr ((k', v') # r')))"

definition RBTree_keys :: "rbtree \<Rightarrow> string list" where
  "RBTree_keys t = map fst t"

subsection \<open>Inodes\<close>

type_synonym bytes = "8 word list"

record inode_base =
  inode_id :: int
  is_dir :: bool
  meta :: meta

record directory = inode_base +
  children :: rbtree

record file_inode = inode_base +
  content :: bytes

datatype inode = Directory directory | File file_inode

definition Directory_init :: "int \<Rightarrow> clock \<Rightarrow> directory \<times> clock" where
  "Directory_init ident clk =
     (case Meta_init clk of (m, clk') \<Rightarrow>
        (\<lparr>inode_id = ident, is_dir = True, meta = m, children = []\<rparr>, clk'))"

definition File_init :: "int \<Rightarrow> bytes \<Rightarrow> clock \<Rightarrow> file_inode \<times> clock" where
  "File_init ident data clk =
     (case Meta_init clk of (m, clk') \<Rightarrow>
        (\<lparr>inode_id = ident, is_dir = False, meta = m\<lparr>fsize := int (length data)\<rparr>, content = data\<rparr>,
         clk'))"

definition add_child :: "directory \<Rightarrow> string \<Rightarrow> int \<Rightarrow> directory" where
  "add_child d name i = d\<lparr>children := RBTree_setitem (children d) name i\<rparr>"

definition get_child :: "directory \<Rightarrow> string \<Rightarrow> error + int" where
  "get_child d name = RBTree_getitem (children d) name"

definition del_child :: "directory \<Rightarrow> string \<Rightarrow> error + directory" where
  "del_child d name =
     (case RBTree_delitem (children d) name of
        Inl e \<Rightarrow> Inl e
      | Inr r \<Rightarrow> Inr (d\<lparr>children := r\<rparr>))"

definition iter_names :: "directory \<Rightarrow> string list" where
  "iter_names d = RBTree_keys (children d)"

subsection \<open>\<open>InodeTable\<close>\<close>

text \<open>
  The table owns every inode: an object is stored under exactly one identity, so mutating an
  object in place is updating the entry of its identity (\<open>put\<close>).  \<open>allocate\<close> stores the
  object under \<open>_next_id\<close>, which the class keeps above every identity in use.
\<close>

record inode_table =
  next_id :: int
  tbl :: "int \<rightharpoonup> inode"

definition InodeTable_init :: inode_table where
  "InodeTable_init = \<lparr>next_id = 0, tbl = Map.empty\<rparr>"

fun set_id :: "inode \<Rightarrow> int \<Rightarrow> inode" where
  "set_id (Directory d) i = Directory (d\<lparr>inode_id := i\<rparr>)"
| "set_id (File f) i = File (f\<lparr>inode_id := i\<rparr>)"

fun get_id :: "inode \<Rightarrow> int" where
  "get_id (Directory d) = inode_id d"
| "get_id (File f) = inode_id f"

definition allocate :: "inode_table \<Rightarrow> inode \<Rightarrow> int \<times> inode_table" where
  "allocate t inode =
     (let inode' = set_id inode (next_id t)
      in (get_id inode',
          \<lparr>next_id = next_id t + 1, tbl = (tbl t)(next_id t \<mapsto> inode')\<rparr>))"

definition table_get :: "inode_table \<Rightarrow> int \<Rightarrow> error + inode" where
  "table_get t i = (case tbl t i of None \<Rightarrow> Inl (KeyError (IntKey i)) | Some x \<Rightarrow> Inr x)"

definition put :: "inode_table \<Rightarrow> int \<Rightarrow> inode \<Rightarrow> inode_table" where
  "put t i x = t\<lparr>tbl := (tbl t)(i \<mapsto> x)\<rparr>"

section \<open>The facade of fs/vfs.py\<close>

text \<open>The state is the \<open>VFS\<close> object, with the clock threaded beside it.  Every operation
  returns its result, or the exception it raises, together with the state it leaves: the
  directories created by \<open>_split_path\<close> stay when the operation fails later.\<close>

record vfs =
  table :: inode_table
  root_id :: int
  clock :: clock

definition VFS_init :: "clock \<Rightarrow> vfs" where
  "VFS_init clk =
     (case Directory_init (- 1) clk of (d, clk') \<Rightarrow>
        (case allocate InodeTable_init (Directory d) of (rid, t) \<Rightarrow>
           \<lparr>table = t, root_id = rid, clock = clk'\<rparr>))"

subsection \<open>\<open>PurePosixPath\<close>\<close>

text \<open>
  \<open>PurePosixPath(path).is_absolute()\<close> holds when the path starts with a slash, and
  \<open>parts[1:]\<close> of an absolute path are the pieces between slashes, without the empty ones
  and without the pieces \<open>.\<close>
\<close>

fun split_sep :: "char \<Rightarrow> string \<Rightarrow> string list" where
  "split_sep c [] = [[]]"
| "split_sep c (x # xs) =
     (if x = c then [] # split_sep c xs
      else (case split_sep c xs of [] \<Rightarrow> [[x]] | w # ws \<Rightarrow> (x # w) # ws))"

definition is_absolute :: "string \<Rightarrow> bool" where
  "is_absolute path = (case path of [] \<Rightarrow> False | c # _ \<Rightarrow> c = CHR ''/'')"

definition posix_parts :: "string \<Rightarrow> string list" where
  "posix_parts path = filter (\<lambda>x. x \<noteq> [] \<and> x \<noteq> ''.'') (split_sep CHR ''/'' path)"

subsection \<open>\<open>_split_path\<close> and \<open>_assert_dir\<close>\<close>

text \<open>The loop of \<open>_split_path\<close> over \<open>parts[:-1]\<close>: \<open>walk s cur segs\<close> is the rest of
  the loop from the identity \<open>cur\<close>.\<close>

fun walk :: "vfs \<Rightarrow> int \<Rightarrow> string list \<Rightarrow> (error + int) \<times> vfs" where
  "walk s cur [] = (Inr cur, s)"
| "walk s cur (seg # segs) =
     (case table_get (table s) cur of
        Inl e \<Rightarrow> (Inl e, s)
      | Inr (File f) \<Rightarrow> (Inl (NotDirectory seg), s)
      | Inr (Directory cur_dir) \<Rightarrow>
          (case get_child cur_dir seg of
             Inr c \<Rightarrow> walk s c segs
           | Inl e \<Rightarrow>
              (case Directory_init (- 1) (clock s) of (d, clk') \<Rightarrow>
                 (case allocate (table s) (Directory d) of (new_id, t) \<Rightarrow>
                    walk (s\<lparr>table := put t cur (Directory (add_child cur_dir seg new_id)),
                             clock := clk'\<rparr>)
                         new_id segs))))"

definition split_path :: "vfs \<Rightarrow> string \<Rightarrow> (error + int \<times> string) \<times> vfs" where
  "split_path s path =
     (if \<not> is_absolute path then (Inl (FSException ''path must start with '/' ''), s)
      else
        (let parts = posix_parts path
         in case walk s (root_id s) (butlast parts) of
              (Inl e, s') \<Rightarrow> (Inl e, s')
            | (Inr cur_id, s') \<Rightarrow> (Inr (cur_id, if parts = [] then [] else last parts), s')))"

definition assert_dir :: "vfs \<Rightarrow> int \<Rightarrow> string \<Rightarrow> error + directory" where
  "assert_dir s i ctx =
     (case table_get (table s) i of
        Inl e \<Rightarrow> Inl e
      | Inr (File f) \<Rightarrow> Inl (NotDirectory ctx)
      | Inr (Directory d) \<Rightarrow> Inr d)"

subsection \<open>The six operations\<close>

definition mkdir :: "vfs \<Rightarrow> string \<Rightarrow> (error + unit) \<times> vfs" where
  "mkdir s path =
     (case split_path s path of
        (Inl e, s1) \<Rightarrow> (Inl e, s1)
      | (Inr (parent_id, name), s1) \<Rightarrow>
          (case assert_dir s1 parent_id path of
             Inl e \<Rightarrow> (Inl e, s1)
           | Inr parent \<Rightarrow>
              (case get_child parent name of
                 Inr c \<Rightarrow> (Inl (FileExists name), s1)
               | Inl e \<Rightarrow>
                  (case Directory_init (- 1) (clock s1) of (d, clk') \<Rightarrow>
                     (case allocate (table s1) (Directory d) of (new_id, t) \<Rightarrow>
                        (Inr (),
                         s1\<lparr>table := put t parent_id (Directory (add_child parent name new_id)),
                            clock := clk'\<rparr>))))))"

definition touch :: "vfs \<Rightarrow> string \<Rightarrow> (error + unit) \<times> vfs" where
  "touch s path =
     (case split_path s path of
        (Inl e, s1) \<Rightarrow> (Inl e, s1)
      | (Inr (parent_id, name), s1) \<Rightarrow>
          (case assert_dir s1 parent_id path of
             Inl e \<Rightarrow> (Inl e, s1)
           | Inr parent \<Rightarrow>
              (case get_child parent name of
                 Inr c \<Rightarrow> (Inl (FileExists name), s1)
               | Inl e \<Rightarrow>
                  (case File_init (- 1) [] (clock s1) of (f, clk') \<Rightarrow>
                     (case allocate (table s1) (File f) of (new_id, t) \<Rightarrow>
                        (Inr (),
                         s1\<lparr>table := put t parent_id (Directory (add_child parent name new_id)),
                            clock := clk'\<rparr>))))))"

text \<open>\<open>write\<close> takes bytes (a \<open>str\<close> argument is encoded to bytes first).  The lookup of
  the child, the lookup of its inode in the table and the overwriting are inside one
  \<open>try\<close>, whose handler catches the \<open>KeyError\<close> of either lookup and creates a new file.\<close>

definition write_new :: "vfs \<Rightarrow> int \<Rightarrow> directory \<Rightarrow> string \<Rightarrow> bytes \<Rightarrow> (error + unit) \<times> vfs" where
  "write_new s1 parent_id parent name data =
     (case File_init (- 1) data (clock s1) of (f, clk') \<Rightarrow>
        (case allocate (table s1) (File f) of (new_id, t) \<Rightarrow>
           (Inr (),
            s1\<lparr>table := put t parent_id (Directory (add_child parent name new_id)),
               clock := clk'\<rparr>)))"

definition write_vfs :: "vfs \<Rightarrow> string \<Rightarrow> bytes \<Rightarrow> (error + unit) \<times> vfs" where
  "write_vfs s path data =
     (case split_path s path of
        (Inl e, s1) \<Rightarrow> (Inl e, s1)
      | (Inr (parent_id, name), s1) \<Rightarrow>
          (case assert_dir s1 parent_id path of
             Inl e \<Rightarrow> (Inl e, s1)
           | Inr parent \<Rightarrow>
              (case get_child parent name of
                 Inl e \<Rightarrow> write_new s1 parent_id parent name data
               | Inr child_id \<Rightarrow>
                  (case table_get (table s1) child_id of
                     Inl e \<Rightarrow> write_new s1 parent_id parent name data
                   | Inr (Directory d) \<Rightarrow> (Inl (NotDirectory name), s1)
                   | Inr (File f) \<Rightarrow>
                       (Inr (),
                        s1\<lparr>table := put (table s1) child_id
                              (File (f\<lparr>content := data,
                                       meta := (meta f)\<lparr>fsize := int (length data)\<rparr>\<rparr>))\<rparr>)))))"

definition read :: "vfs \<Rightarrow> string \<Rightarrow> (error + bytes) \<times> vfs" where
  "read s path =
     (case split_path s path of
        (Inl e, s1) \<Rightarrow> (Inl e, s1)
      | (Inr (parent_id, name), s1) \<Rightarrow>
          (case assert_dir s1 parent_id path of
             Inl e \<Rightarrow> (Inl e, s1)
           | Inr parent \<Rightarrow>
              (case get_child parent name of
                 Inl e \<Rightarrow> (Inl (FileNotFound name), s1)
               | Inr child_id \<Rightarrow>
                  (case table_get (table s1) child_id of
                     Inl e \<Rightarrow> (Inl e, s1)
                   | Inr (Directory d) \<Rightarrow> (Inl (NotDirectory name), s1)
                   | Inr (File f) \<Rightarrow> (Inr (content f), s1)))))"

text \<open>\<open>ls\<close> calls \<open>get_child\<close> on whatever the table holds for the parent, without
  \<open>_assert_dir\<close> and outside any \<open>try\<close>: a \<open>File\<close> has no such method
  (\<open>AttributeError\<close>), and the \<open>KeyError\<close> of an absent name is not caught.\<close>

definition ls :: "vfs \<Rightarrow> string \<Rightarrow> (error + string list) \<times> vfs" where
  "ls s path =
     (if path = ''/'' then
        (case assert_dir s (root_id s) ''/'' of
           Inl e \<Rightarrow> (Inl e, s)
         | Inr dir_node \<Rightarrow> (Inr (iter_names dir_node), s))
      else
        (case split_path s path of
           (Inl e, s1) \<Rightarrow> (Inl e, s1)
         | (Inr (parent_id, name), s1) \<Rightarrow>
             (case table_get (table s1) parent_id of
                Inl e \<Rightarrow> (Inl e, s1)
              | Inr (File f) \<Rightarrow> (Inl AttributeError, s1)
              | Inr (Directory parent) \<Rightarrow>
                  (case get_child parent name of
                     Inl e \<Rightarrow> (Inl e, s1)
                   | Inr c \<Rightarrow>
                      (case assert_dir s1 c path of
                         Inl e \<Rightarrow> (Inl e, s1)
                       | Inr dir_node \<Rightarrow> (Inr (iter_names dir_node), s1))))))"

definition rm :: "vfs \<Rightarrow> string \<Rightarrow> (error + unit) \<times> vfs" where
  "rm s path =
     (case split_path s path of
        (Inl e, s1) \<Rightarrow> (Inl e, s1)
      | (Inr (parent_id, name), s1) \<Rightarrow>
          (case assert_dir s1 parent_id path of
             Inl e \<Rightarrow> (Inl e, s1)
           | Inr parent \<Rightarrow>
              (case get_child parent name of
                 Inl e \<Rightarrow> (Inl (FileNotFound name), s1)
               | Inr child_id \<Rightarrow>
                  (case del_child parent name of
                     Inl e \<Rightarrow> (Inl e, s1)
                   | Inr parent' \<Rightarrow> (Inr (), s1\<lparr>table := put (table s1) parent_id (Directory parent')\<rparr>)))))"

section \<open>Runs of operations and the error taxonomy\<close>

datatype op =
    Mkdir string
  | Touch string
  | Write string bytes
  | Read string
  | Ls string
  | Rm string

text \<open>The state an operation leaves, whether it returns or raises.\<close>

fun step :: "vfs \<Rightarrow> op \<Rightarrow> vfs" where
  "step s (Mkdir p) = snd (mkdir s p)"
| "step s (Touch p) = snd (touch s p)"
| "step s (Write p data) = snd (write_vfs s p data)"
| "step s (Read p) = snd (read s p)"
| "step s (Ls p) = snd (ls s p)"
| "step s (Rm p) = snd (rm s p)"

fun run :: "vfs \<Rightarrow> op list \<Rightarrow> vfs" where
  "run s [] = s"
| "run s (x # xs) = run (step s x) xs"

text \<open>The five kinds of the error taxonomy and the exception each one stands for.
  \<open>InvalidIdentity\<close> is the \<open>KeyError\<close> of the inode table.  The \<open>KeyError\<close> of a
  directory index, \<open>IndexError\<close>, \<open>ValueError\<close> and \<open>AttributeError\<close> have no kind.\<close>

datatype kind = InvalidPath | AlreadyExists | NotFound | NotADirectory | InvalidIdentity

fun kind_of :: "error \<Rightarrow> kind option" where
  "kind_of (FSException m) = Some InvalidPath"
| "kind_of (FileExists n) = Some AlreadyExists"
| "kind_of (FileNotFound n) = Some NotFound"
| "kind_of (NotDirectory n) = Some NotADirectory"
| "kind_of (KeyError (IntKey i)) = Some InvalidIdentity"
| "kind_of (KeyError (StrKey n)) = None"
| "kind_of IndexError = None"
| "kind_of ValueError = None"
| "kind_of AttributeError = None"

text \<open>The keys \<open>00\<close>, \<open>01\<close>, ..., each with its number as value.\<close>

definition two_digit :: "nat \<Rightarrow> string \<times> int" where
  "two_digit n = ([char_of (48 + n div 10), char_of (48 + n mod 10)], int n)"

section \<open>Vocabulary of the properties\<close>

text \<open>The path an operation is given.\<close>

fun path_of :: "op \<Rightarrow> string" where
  "path_of (Mkdir p) = p"
| "path_of (Touch p) = p"
| "path_of (Write p data) = p"
| "path_of (Read p) = p"
| "path_of (Ls p) = p"
| "path_of (Rm p) = p"

text \<open>The components of a path that \<open>_split_path\<close> walks through, and the one it returns.\<close>

definition intermediate :: "string \<Rightarrow> string list" where
  "intermediate path = butlast (posix_parts path)"

definition final_component :: "string \<Rightarrow> string" where
  "final_component path = (if posix_parts path = [] then [] else last (posix_parts path))"

text \<open>Looking a path up without changing anything: \<open>resolve t cur segs\<close> follows the
  components \<open>segs\<close> from the directory \<open>cur\<close> and fails where a component is absent or
  the current inode is not a directory; \<open>lookup s path\<close> is the identity and the inode that
  the whole path names.\<close>

fun resolve :: "inode_table \<Rightarrow> int \<Rightarrow> string list \<Rightarrow> int option" where
  "resolve t cur [] = Some cur"
| "resolve t cur (seg # segs) =
     (case tbl t cur of
        Some (Directory d) \<Rightarrow>
          (case get_child d seg of Inr c \<Rightarrow> resolve t c segs | Inl e \<Rightarrow> None)
      | _ \<Rightarrow> None)"

definition lookup :: "vfs \<Rightarrow> string \<Rightarrow> (int \<times> inode) option" where
  "lookup s path =
     (case resolve (table s) (root_id s) (intermediate path) of
        None \<Rightarrow> None
      | Some pid \<Rightarrow>
         (case tbl (table s) pid of
            Some (Directory parent) \<Rightarrow>
              (case get_child parent (final_component path) of
                 Inl e \<Rightarrow> None
               | Inr c \<Rightarrow> (case tbl (table s) c of None \<Rightarrow> None | Some x \<Rightarrow> Some (c, x)))
          | _ \<Rightarrow> None))"

text \<open>
  The invariant of the reachable states: every identity in the table is non-negative, below
  \<open>_next_id\<close> and equal to the \<open>id\<close> field of the inode stored under it; every child
  recorded in a directory is in the table and was allocated after the directory; the root is
  a directory.
\<close>

definition wf :: "vfs \<Rightarrow> bool" where
  "wf s \<longleftrightarrow>
     (\<forall>j x. tbl (table s) j = Some x \<longrightarrow> 0 \<le> j \<and> j < next_id (table s) \<and> get_id x = j) \<and>
     (\<forall>j d n c. tbl (table s) j = Some (Directory d) \<longrightarrow> (n, c) \<in> set (children d) \<longrightarrow>
        j < c \<and> c \<in> dom (tbl (table s))) \<and>
     (\<exists>d. tbl (table s) (root_id s) = Some (Directory d))"

text \<open>What an operation does after \<open>_split_path\<close> has returned the parent \<open>pid\<close> and the
  name: nothing, or it allocates an inode and adds it to the parent under the name, or it
  overwrites the file the name stands for, or it deletes the name from the parent.\<close>

inductive tail :: "vfs \<Rightarrow> int \<Rightarrow> string \<Rightarrow> vfs \<Rightarrow> bool" where
  same: "tail s1 pid name s1"
| create: "tbl (table s1) pid = Some (Directory parent) \<Longrightarrow> allocate (table s1) x = (new_id, t) \<Longrightarrow>
     (\<And>d. x = Directory d \<Longrightarrow> children d = []) \<Longrightarrow>
     tail s1 pid name (s1\<lparr>table := put t pid (Directory (add_child parent name new_id)), clock := clk'\<rparr>)"
| overwrite: "tbl (table s1) pid = Some (Directory parent) \<Longrightarrow> get_child parent name = Inr cid \<Longrightarrow>
     tbl (table s1) cid = Some (File f) \<Longrightarrow>
     tail s1 pid name (s1\<lparr>table := put (table s1) cid (File (f\<lparr>content := data, meta := m\<rparr>))\<rparr>)"
| delete: "tbl (table s1) pid = Some (Directory parent) \<Longrightarrow> del_child parent name = Inr parent' \<Longrightarrow>
     tail s1 pid name (s1\<lparr>table := put (table s1) pid (Directory parent')\<rparr>)"

text \<open>A state without files in which the directory \<open>cur\<close> is empty.\<close>

definition fresh_at :: "vfs \<Rightarrow> int \<Rightarrow> bool" where
  "fresh_at s cur \<longleftrightarrow> wf s \<and> (\<forall>j x. tbl (table s) j = Some x \<longrightarrow> (\<exists>d. x = Directory d)) \<and>
     (\<exists>d. tbl (table s) cur = Some (Directory d) \<and> children d = [])"

section \<open>The invariant and its preservation\<close>

lemma RBTree_get_set:
  "RBTree_getitem (RBTree_setitem t k v) k' = (if k' = k then Inr v else RBTree_getitem t k')"
  by (induction t) auto

lemma RBTree_get_mem: "RBTree_getitem t k = Inr c \<Longrightarrow> (k, c) \<in> set t"
  by (induction t) (auto split: if_splits)

lemma RBTree_set_mem: "p \<in> set (RBTree_setitem t k v) \<Longrightarrow> p = (k, v) \<or> p \<in> set t"
  by (induction t) (auto split: if_splits)

lemma RBTree_set_subset: "set (RBTree_setitem t k v) \<subseteq> insert (k, v) (set t)"
  using RBTree_set_mem by fastforce

lemma RBTree_del_mem: "RBTree_delitem t k = Inr t' \<Longrightarrow> p \<in> set t' \<Longrightarrow> p \<in> set t"
  by (induction t arbitrary: t') (auto split: if_splits sum.splits)

lemma RBTree_del_subset: "RBTree_delitem t k = Inr t' \<Longrightarrow> set t' \<subseteq> set t"
  using RBTree_del_mem by blast

lemma get_id_set_id [simp]: "get_id (set_id x i) = i"
  by (cases x) auto

lemma allocate_eq:
  "allocate t x = (next_id t, \<lparr>next_id = next_id t + 1, tbl = (tbl t)(next_id t \<mapsto> set_id x (next_id t))\<rparr>)"
  by (simp add: allocate_def Let_def)

lemma wf_entry: "wf s \<Longrightarrow> tbl (table s) j = Some x \<Longrightarrow> 0 \<le> j \<and> j < next_id (table s) \<and> get_id x = j"
  unfolding wf_def by blast

lemma wf_edge:
  "wf s \<Longrightarrow> tbl (table s) j = Some (Directory d) \<Longrightarrow> (n, c) \<in> set (children d) \<Longrightarrow>
   j < c \<and> c \<in> dom (tbl (table s))"
  unfolding wf_def by blast

lemma wf_root: "wf s \<Longrightarrow> \<exists>d. tbl (table s) (root_id s) = Some (Directory d)"
  unfolding wf_def by blast

lemma wf_init: "wf (VFS_init clk)"
  by (simp add: wf_def VFS_init_def Directory_init_def Meta_init_def allocate_eq InodeTable_init_def)

lemma wf_create:
  assumes "wf s" and "tbl (table s) pid = Some (Directory parent)"
    and "allocate (table s) x = (new_id, t)"
    and "\<And>d. x = Directory d \<Longrightarrow> children d = []"
  shows "wf (s\<lparr>table := put t pid (Directory (add_child parent name new_id)), clock := clk'\<rparr>)"
proof -
  from assms(3) have n: "new_id = next_id (table s)"
    and t: "t = \<lparr>next_id = next_id (table s) + 1, tbl = (tbl (table s))(next_id (table s) \<mapsto> set_id x (next_id (table s)))\<rparr>"
    by (auto simp: allocate_eq)
  from assms(1,2) have pid: "0 \<le> pid" "pid < new_id" "inode_id parent = pid"
    unfolding wf_def n by fastforce+
  have ch: "set (children (add_child parent name new_id)) \<subseteq> insert (name, new_id) (set (children parent))"
    by (simp add: add_child_def RBTree_set_subset)
  have newch: "\<And>d. set_id x new_id = Directory d \<Longrightarrow> children d = []"
    using assms(4) by (cases x) auto
  show ?thesis
    unfolding wf_def
  proof (intro conjI allI impI)
    fix j y
    assume "tbl (table (s\<lparr>table := put t pid (Directory (add_child parent name new_id)), clock := clk'\<rparr>)) j = Some y"
    then have "(j = pid \<and> y = Directory (add_child parent name new_id)) \<or>
               (j = new_id \<and> y = set_id x new_id) \<or> tbl (table s) j = Some y"
      by (auto simp: put_def t n split: if_splits)
    then have "0 \<le> j \<and> j < new_id + 1 \<and> get_id y = j"
      using wf_entry [OF assms(1), of j y] pid n by (auto simp: add_child_def)
    then show "0 \<le> j" "j < next_id (table (s\<lparr>table := put t pid (Directory (add_child parent name new_id)), clock := clk'\<rparr>))"
      "get_id y = j"
      by (simp_all add: put_def t n)
  next
    fix j d nm c
    assume a: "tbl (table (s\<lparr>table := put t pid (Directory (add_child parent name new_id)), clock := clk'\<rparr>)) j = Some (Directory d)"
      and b: "(nm, c) \<in> set (children d)"
    consider (p) "j = pid" | (nw) "j \<noteq> pid" "j = new_id" | (o) "j \<noteq> pid" "j \<noteq> new_id" by blast
    then have "j < c \<and> (c = new_id \<or> c \<in> dom (tbl (table s)))"
    proof cases
      case p
      with a have "d = add_child parent name new_id" by (simp add: put_def)
      with b ch have "(nm, c) = (name, new_id) \<or> (nm, c) \<in> set (children parent)" by auto
      then show ?thesis using wf_edge [OF assms(1,2), of nm c] pid p by auto
    next
      case nw
      with a have "set_id x new_id = Directory d" by (simp add: put_def t n)
      with newch b show ?thesis by simp
    next
      case o
      with a have "tbl (table s) j = Some (Directory d)" by (simp add: put_def t n)
      with b show ?thesis using wf_edge [OF assms(1), of j d nm c] by simp
    qed
    then show "j < c" "c \<in> dom (tbl (table (s\<lparr>table := put t pid (Directory (add_child parent name new_id)), clock := clk'\<rparr>)))"
      by (auto simp: put_def t n)
  next
    from assms(1) obtain d where "tbl (table s) (root_id s) = Some (Directory d)"
      unfolding wf_def by blast
    moreover from this have "root_id s < new_id" using wf_entry [OF assms(1)] n by blast
    ultimately show "\<exists>d. tbl (table (s\<lparr>table := put t pid (Directory (add_child parent name new_id)), clock := clk'\<rparr>))
                 (root_id (s\<lparr>table := put t pid (Directory (add_child parent name new_id)), clock := clk'\<rparr>)) = Some (Directory d)"
      by (auto simp: put_def t n)
  qed
qed

lemma resolve_Cons:
  "resolve t cur (seg # segs) = Some p \<longleftrightarrow>
   (\<exists>d c. tbl t cur = Some (Directory d) \<and> get_child d seg = Inr c \<and> resolve t c segs = Some p)"
  by (auto split: option.splits inode.splits sum.splits)

lemma resolve_walk: "resolve (table s) cur segs = Some p \<Longrightarrow> walk s cur segs = (Inr p, s)"
  by (induction segs arbitrary: cur) (auto simp: table_get_def split: option.splits inode.splits sum.splits)

lemma get_child_mem: "get_child d n = Inr c \<Longrightarrow> (n, c) \<in> set (children d)"
  by (simp add: get_child_def RBTree_get_mem)

lemma resolve_le: "wf s \<Longrightarrow> resolve (table s) cur segs = Some p \<Longrightarrow> cur \<le> p"
proof (induction segs arbitrary: cur)
  case Nil
  then show ?case by simp
next
  case (Cons seg segs)
  from Cons.prems(2) obtain d c where d: "tbl (table s) cur = Some (Directory d)"
    and c: "get_child d seg = Inr c" and r: "resolve (table s) c segs = Some p"
    unfolding resolve_Cons by blast
  from wf_edge [OF Cons.prems(1) d get_child_mem [OF c]] have "cur < c" by simp
  moreover from Cons.IH [OF Cons.prems(1) r] have "c \<le> p" .
  ultimately show ?case by simp
qed

lemma resolve_agree:
  "wf s \<Longrightarrow> resolve (table s) cur segs = Some p \<Longrightarrow> (\<And>j. j < p \<Longrightarrow> tbl t' j = tbl (table s) j) \<Longrightarrow>
   resolve t' cur segs = Some p"
proof (induction segs arbitrary: cur)
  case Nil
  then show ?case by simp
next
  case (Cons seg segs)
  from Cons.prems(2) obtain d c where d: "tbl (table s) cur = Some (Directory d)"
    and c: "get_child d seg = Inr c" and r: "resolve (table s) c segs = Some p"
    unfolding resolve_Cons by blast
  from wf_edge [OF Cons.prems(1) d get_child_mem [OF c]] have "cur < c" by simp
  moreover from resolve_le [OF Cons.prems(1) r] have "c \<le> p" .
  ultimately have "cur < p" by simp
  then have "tbl t' cur = Some (Directory d)" using Cons.prems(3) d by simp
  moreover have "resolve t' c segs = Some p" using Cons.IH [OF Cons.prems(1) r Cons.prems(3)] .
  ultimately show ?case using c unfolding resolve_Cons by blast
qed

lemma walk_post:
  "wf s \<Longrightarrow> walk s cur segs = (r, s1) \<Longrightarrow>
   wf s1 \<and> root_id s1 = root_id s \<and> next_id (table s) \<le> next_id (table s1) \<and>
   (\<forall>j. j < cur \<longrightarrow> tbl (table s1) j = tbl (table s) j) \<and>
   (\<forall>j. j \<in> dom (tbl (table s)) \<longrightarrow> j \<in> dom (tbl (table s1))) \<and>
   (\<forall>p. r = Inr p \<longrightarrow> resolve (table s1) cur segs = Some p)"
proof (induction segs arbitrary: s cur)
  case Nil
  then show ?case by auto
next
  case (Cons seg segs)
  show ?case
  proof (cases "tbl (table s) cur")
    case None
    with Cons.prems show ?thesis by (auto simp: table_get_def)
  next
    case (Some x)
    show ?thesis
    proof (cases x)
      case (File f)
      with Some Cons.prems show ?thesis by (auto simp: table_get_def)
    next
      case (Directory d)
      note d = Some [unfolded Directory]
      show ?thesis
      proof (cases "get_child d seg")
        case (Inr c)
        with d Cons.prems(2) have w: "walk s c segs = (r, s1)" by (simp add: table_get_def)
        note ih = Cons.IH [OF Cons.prems(1) w]
        from wf_edge [OF Cons.prems(1) d get_child_mem [OF Inr]] have lt: "cur < c" by simp
        then have "tbl (table s1) cur = Some (Directory d)" using ih d by simp
        then have "\<forall>p. r = Inr p \<longrightarrow> resolve (table s1) cur (seg # segs) = Some p"
          using ih Inr unfolding resolve_Cons by blast
        moreover have "\<forall>j. j < cur \<longrightarrow> tbl (table s1) j = tbl (table s) j" using ih lt by simp
        ultimately show ?thesis using ih by blast
      next
        case (Inl e)
        obtain nd clk' where di: "Directory_init (- 1) (clock s) = (nd, clk')" by force
        then have nd: "children nd = []" by (auto simp: Directory_init_def split: prod.splits)
        obtain new_id t where al: "allocate (table s) (Directory nd) = (new_id, t)" by force
        define s2 where "s2 = s\<lparr>table := put t cur (Directory (add_child d seg new_id)), clock := clk'\<rparr>"
        from d Inl di al Cons.prems(2) have w: "walk s2 new_id segs = (r, s1)"
          by (simp add: table_get_def s2_def)
        have wf2: "wf s2" unfolding s2_def using wf_create [OF Cons.prems(1) d al] nd by simp
        note ih = Cons.IH [OF wf2 w]
        from al have n: "new_id = next_id (table s)"
          and t: "t = \<lparr>next_id = next_id (table s) + 1, tbl = (tbl (table s))(next_id (table s) \<mapsto> set_id (Directory nd) (next_id (table s)))\<rparr>"
          by (auto simp: allocate_eq)
        from wf_entry [OF Cons.prems(1) d] have lt: "cur < new_id" using n by simp
        have s2cur: "tbl (table s2) cur = Some (Directory (add_child d seg new_id))"
          by (simp add: s2_def put_def)
        have s2oth: "\<And>j. j < cur \<Longrightarrow> tbl (table s2) j = tbl (table s) j"
          using lt by (simp add: s2_def put_def t n)
        have s2dom: "\<And>j. j \<in> dom (tbl (table s)) \<Longrightarrow> j \<in> dom (tbl (table s2))"
          by (auto simp: s2_def put_def t)
        have "tbl (table s1) cur = Some (Directory (add_child d seg new_id))"
          using ih lt s2cur by simp
        moreover have "get_child (add_child d seg new_id) seg = Inr new_id"
          by (simp add: get_child_def add_child_def RBTree_get_set)
        ultimately have "\<forall>p. r = Inr p \<longrightarrow> resolve (table s1) cur (seg # segs) = Some p"
          using ih unfolding resolve_Cons by blast
        moreover have "\<forall>j. j < cur \<longrightarrow> tbl (table s1) j = tbl (table s) j"
          using ih lt s2oth by simp
        moreover have "next_id (table s) \<le> next_id (table s1)"
          using ih by (simp add: s2_def put_def t)
        moreover have "root_id s1 = root_id s" using ih by (simp add: s2_def)
        moreover have "\<forall>j. j \<in> dom (tbl (table s)) \<longrightarrow> j \<in> dom (tbl (table s1))"
          using ih s2dom by blast
        ultimately show ?thesis using ih by blast
      qed
    qed
  qed
qed

lemma assert_dir_Inr: "assert_dir s i ctx = Inr d \<longleftrightarrow> tbl (table s) i = Some (Directory d)"
  by (auto simp: assert_dir_def table_get_def split: option.splits inode.splits)

lemma Directory_init_children: "Directory_init i clk = (d, clk') \<Longrightarrow> children d = []"
  by (auto simp: Directory_init_def split: prod.splits)

lemma mkdir_tail:
  "split_path s p = (r, s1) \<Longrightarrow>
   (case r of Inl e \<Rightarrow> snd (mkdir s p) = s1 | Inr (pid, name) \<Rightarrow> tail s1 pid name (snd (mkdir s p)))"
  by (auto simp: mkdir_def assert_dir_Inr split: sum.splits prod.splits
      intro: tail.same tail.create dest: Directory_init_children)

lemma touch_tail:
  "split_path s p = (r, s1) \<Longrightarrow>
   (case r of Inl e \<Rightarrow> snd (touch s p) = s1 | Inr (pid, name) \<Rightarrow> tail s1 pid name (snd (touch s p)))"
  by (auto simp: touch_def assert_dir_Inr split: sum.splits prod.splits
      intro: tail.same tail.create)

lemma write_tail:
  "split_path s p = (r, s1) \<Longrightarrow>
   (case r of Inl e \<Rightarrow> snd (write_vfs s p data) = s1
    | Inr (pid, name) \<Rightarrow> tail s1 pid name (snd (write_vfs s p data)))"
  by (auto simp: write_vfs_def write_new_def assert_dir_Inr table_get_def
      split: sum.splits prod.splits option.splits inode.splits
      intro: tail.same tail.create tail.overwrite)

lemma read_tail:
  "split_path s p = (r, s1) \<Longrightarrow> snd (read s p) = s1"
  by (auto simp: read_def split: sum.splits prod.splits inode.splits)

lemma ls_tail:
  "split_path s p = (r, s1) \<Longrightarrow> snd (ls s p) = (if p = ''/'' then s else s1)"
  by (auto simp: ls_def split: sum.splits prod.splits inode.splits)

lemma rm_tail:
  "split_path s p = (r, s1) \<Longrightarrow>
   (case r of Inl e \<Rightarrow> snd (rm s p) = s1 | Inr (pid, name) \<Rightarrow> tail s1 pid name (snd (rm s p)))"
  by (auto simp: rm_def assert_dir_Inr split: sum.splits prod.splits
      intro: tail.same tail.delete)

lemma wf_overwrite:
  assumes "wf s" and "tbl (table s) cid = Some (File f)"
  shows "wf (s\<lparr>table := put (table s) cid (File (f\<lparr>content := data, meta := m\<rparr>))\<rparr>)"
  unfolding wf_def
proof (intro conjI allI impI)
  fix j y
  assume "tbl (table (s\<lparr>table := put (table s) cid (File (f\<lparr>content := data, meta := m\<rparr>))\<rparr>)) j = Some y"
  then have "(j = cid \<and> y = File (f\<lparr>content := data, meta := m\<rparr>)) \<or> tbl (table s) j = Some y"
    by (auto simp: put_def split: if_splits)
  then have "0 \<le> j \<and> j < next_id (table s) \<and> get_id y = j"
    using wf_entry [OF assms(1), of j y] wf_entry [OF assms] by auto
  then show "0 \<le> j" "j < next_id (table (s\<lparr>table := put (table s) cid (File (f\<lparr>content := data, meta := m\<rparr>))\<rparr>))"
    "get_id y = j"
    by (simp_all add: put_def)
next
  fix j d nm c
  assume a: "tbl (table (s\<lparr>table := put (table s) cid (File (f\<lparr>content := data, meta := m\<rparr>))\<rparr>)) j = Some (Directory d)"
    and b: "(nm, c) \<in> set (children d)"
  from a have "tbl (table s) j = Some (Directory d)" by (auto simp: put_def split: if_splits)
  from wf_edge [OF assms(1) this b]
  show "j < c" "c \<in> dom (tbl (table (s\<lparr>table := put (table s) cid (File (f\<lparr>content := data, meta := m\<rparr>))\<rparr>)))"
    by (auto simp: put_def)
next
  from wf_root [OF assms(1)] assms(2)
  show "\<exists>d. tbl (table (s\<lparr>table := put (table s) cid (File (f\<lparr>content := data, meta := m\<rparr>))\<rparr>))
          (root_id (s\<lparr>table := put (table s) cid (File (f\<lparr>content := data, meta := m\<rparr>))\<rparr>)) = Some (Directory d)"
    by (auto simp: put_def)
qed

lemma del_child_props:
  "del_child parent name = Inr parent' \<Longrightarrow>
   set (children parent') \<subseteq> set (children parent) \<and> inode_id parent' = inode_id parent"
  by (auto simp: del_child_def split: sum.splits dest: RBTree_del_mem)

lemma wf_delete:
  assumes "wf s" and "tbl (table s) pid = Some (Directory parent)"
    and "del_child parent name = Inr parent'"
  shows "wf (s\<lparr>table := put (table s) pid (Directory parent')\<rparr>)"
  unfolding wf_def
proof (intro conjI allI impI)
  note dp = del_child_props [OF assms(3)]
  fix j y
  assume "tbl (table (s\<lparr>table := put (table s) pid (Directory parent')\<rparr>)) j = Some y"
  then have "(j = pid \<and> y = Directory parent') \<or> tbl (table s) j = Some y"
    by (auto simp: put_def split: if_splits)
  then have "0 \<le> j \<and> j < next_id (table s) \<and> get_id y = j"
    using wf_entry [OF assms(1), of j y] wf_entry [OF assms(1,2)] dp by auto
  then show "0 \<le> j" "j < next_id (table (s\<lparr>table := put (table s) pid (Directory parent')\<rparr>))"
    "get_id y = j"
    by (simp_all add: put_def)
next
  note dp = del_child_props [OF assms(3)]
  fix j d nm c
  assume a: "tbl (table (s\<lparr>table := put (table s) pid (Directory parent')\<rparr>)) j = Some (Directory d)"
    and b: "(nm, c) \<in> set (children d)"
  from a b dp have "\<exists>d0. tbl (table s) j = Some (Directory d0) \<and> (nm, c) \<in> set (children d0)"
    using assms(2) by (auto simp: put_def split: if_splits)
  then obtain d0 where "tbl (table s) j = Some (Directory d0)" "(nm, c) \<in> set (children d0)" by blast
  from wf_edge [OF assms(1) this]
  show "j < c" "c \<in> dom (tbl (table (s\<lparr>table := put (table s) pid (Directory parent')\<rparr>)))"
    by (auto simp: put_def)
next
  from wf_root [OF assms(1)]
  show "\<exists>d. tbl (table (s\<lparr>table := put (table s) pid (Directory parent')\<rparr>))
          (root_id (s\<lparr>table := put (table s) pid (Directory parent')\<rparr>)) = Some (Directory d)"
    by (auto simp: put_def)
qed

lemma tail_wf: "tail s1 pid name s' \<Longrightarrow> wf s1 \<Longrightarrow> wf s'"
  by (induction rule: tail.induct) (auto intro: wf_create wf_overwrite wf_delete)

lemma tail_frame:
  "tail s1 pid name s' \<Longrightarrow> wf s1 \<Longrightarrow>
   root_id s' = root_id s1 \<and> next_id (table s1) \<le> next_id (table s') \<and>
   (\<forall>j. j < pid \<longrightarrow> tbl (table s') j = tbl (table s1) j) \<and>
   (\<forall>j. j \<in> dom (tbl (table s1)) \<longrightarrow> j \<in> dom (tbl (table s')))"
proof (induction rule: tail.induct)
  case (same s1 pid name)
  then show ?case by simp
next
  case (create s1 pid parent x new_id t name clk')
  from wf_entry [OF create.prems create.hyps(1)] have "pid < next_id (table s1)" by simp
  with create.hyps(2) show ?case by (auto simp: allocate_eq put_def)
next
  case (overwrite s1 pid parent name cid f data m)
  from wf_edge [OF overwrite.prems overwrite.hyps(1) get_child_mem [OF overwrite.hyps(2)]]
  have "pid < cid" by simp
  then show ?case using overwrite.hyps(3) by (auto simp: put_def)
next
  case (delete s1 pid parent name parent')
  then show ?case by (auto simp: put_def)
qed

lemma split_path_post:
  assumes "wf s" and "split_path s p = (r, s1)"
  shows "wf s1 \<and> root_id s1 = root_id s \<and> next_id (table s) \<le> next_id (table s1) \<and>
    (\<forall>j. j \<in> dom (tbl (table s)) \<longrightarrow> j \<in> dom (tbl (table s1))) \<and>
    (\<forall>pid name. r = Inr (pid, name) \<longrightarrow>
       is_absolute p \<and> resolve (table s1) (root_id s) (intermediate p) = Some pid \<and>
       name = final_component p)"
proof (cases "is_absolute p")
  case False
  with assms show ?thesis by (auto simp: split_path_def)
next
  case True
  obtain r' s' where w: "walk s (root_id s) (butlast (posix_parts p)) = (r', s')" by force
  from walk_post [OF assms(1) w] w assms(2) True show ?thesis
    by (auto simp: split_path_def Let_def intermediate_def final_component_def split: sum.splits)
qed

lemma step_post:
  assumes "wf s"
  shows "wf (step s x) \<and> root_id (step s x) = root_id s \<and>
    next_id (table s) \<le> next_id (table (step s x)) \<and>
    (\<forall>j. j \<in> dom (tbl (table s)) \<longrightarrow> j \<in> dom (tbl (table (step s x))))"
proof -
  have main: "wf s' \<and> root_id s' = root_id s \<and> next_id (table s) \<le> next_id (table s') \<and>
    (\<forall>j. j \<in> dom (tbl (table s)) \<longrightarrow> j \<in> dom (tbl (table s')))"
    if sp: "split_path s p = (r, s1)"
      and t: "case r of Inl e \<Rightarrow> s' = s1 | Inr (pid, name) \<Rightarrow> tail s1 pid name s'"
    for p r s1 s'
  proof (cases r)
    case (Inl e)
    with t split_path_post [OF assms sp] show ?thesis by simp
  next
    case (Inr pn)
    obtain pid name where pn: "pn = (pid, name)" by force
    with Inr t have tl: "tail s1 pid name s'" by simp
    from split_path_post [OF assms sp] have w1: "wf s1" by simp
    from tail_wf [OF tl w1] tail_frame [OF tl w1] split_path_post [OF assms sp]
    show ?thesis by auto
  qed
  show ?thesis
  proof (cases x)
    case (Mkdir p)
    obtain r s1 where sp: "split_path s p = (r, s1)" by force
    from main [OF sp, of "snd (mkdir s p)"] mkdir_tail [OF sp] Mkdir show ?thesis by simp
  next
    case (Touch p)
    obtain r s1 where sp: "split_path s p = (r, s1)" by force
    from main [OF sp, of "snd (touch s p)"] touch_tail [OF sp] Touch show ?thesis by simp
  next
    case (Write p data)
    obtain r s1 where sp: "split_path s p = (r, s1)" by force
    from main [OF sp, of "snd (write_vfs s p data)"] write_tail [OF sp] Write show ?thesis by simp
  next
    case (Read p)
    obtain r s1 where sp: "split_path s p = (r, s1)" by force
    from split_path_post [OF assms sp] read_tail [OF sp] Read show ?thesis by simp
  next
    case (Ls p)
    obtain r s1 where sp: "split_path s p = (r, s1)" by force
    from split_path_post [OF assms sp] ls_tail [OF sp] Ls assms show ?thesis by simp
  next
    case (Rm p)
    obtain r s1 where sp: "split_path s p = (r, s1)" by force
    from main [OF sp, of "snd (rm s p)"] rm_tail [OF sp] Rm show ?thesis by simp
  qed
qed

lemma run_post:
  "wf s \<Longrightarrow> wf (run s xs) \<and> root_id (run s xs) = root_id s \<and>
    next_id (table s) \<le> next_id (table (run s xs)) \<and>
    (\<forall>j. j \<in> dom (tbl (table s)) \<longrightarrow> j \<in> dom (tbl (table (run s xs))))"
proof (induction xs arbitrary: s)
  case Nil
  then show ?case by simp
next
  case (Cons x xs)
  from step_post [OF Cons.prems, of x] have w: "wf (step s x)" by simp
  from Cons.IH [OF w] step_post [OF Cons.prems, of x] show ?case by auto
qed

section \<open>Looking up after an operation\<close>

lemma split_path_resolved:
  "is_absolute p \<Longrightarrow> resolve (table s) (root_id s) (intermediate p) = Some pid \<Longrightarrow>
   split_path s p = (Inr (pid, final_component p), s)"
  by (simp add: split_path_def Let_def intermediate_def final_component_def resolve_walk)

lemma wf_reachable: "wf (run (VFS_init clk) xs)"
  using run_post [OF wf_init] by blast

lemma run_append: "run s (xs @ ys) = run (run s xs) ys"
  by (induction xs arbitrary: s) auto

lemma tail_resolve:
  assumes "wf s1" and "tail s1 pid name s'" and "resolve (table s1) (root_id s1) segs = Some pid"
  shows "resolve (table s') (root_id s') segs = Some pid"
proof -
  from tail_frame [OF assms(2,1)] have r: "root_id s' = root_id s1"
    and f: "\<And>j. j < pid \<Longrightarrow> tbl (table s') j = tbl (table s1) j" by auto
  from resolve_agree [OF assms(1,3), of "table s'"] f show ?thesis by (simp add: r)
qed

lemma mkdir_exists:
  assumes "is_absolute p" and "resolve (table s) (root_id s) (intermediate p) = Some pid"
    and "tbl (table s) pid = Some (Directory parent)"
    and "get_child parent (final_component p) = Inr c"
  shows "mkdir s p = (Inl (FileExists (final_component p)), s)"
    and "touch s p = (Inl (FileExists (final_component p)), s)"
  using assms split_path_resolved [OF assms(1,2)]
  by (simp_all add: mkdir_def touch_def assert_dir_def table_get_def)

lemma mkdir_twice:
  assumes "wf s" and "fst (mkdir s p) = Inr ()"
  shows "fst (mkdir (snd (mkdir s p)) p) = Inl (FileExists (final_component p))"
proof -
  obtain r s1 where sp: "split_path s p = (r, s1)" by force
  from assms(2) sp obtain pid name where r: "r = Inr (pid, name)"
    by (cases r) (auto simp: mkdir_def)
  note post = split_path_post [OF assms(1) sp]
  from post r have w1: "wf s1" and ab: "is_absolute p"
    and res: "resolve (table s1) (root_id s1) (intermediate p) = Some pid"
    and nm: "name = final_component p" by auto
  from mkdir_tail [OF sp] r have tl: "tail s1 pid name (snd (mkdir s p))" by simp
  from assms(2) sp r obtain parent d clk' new_id t where
    par: "tbl (table s1) pid = Some (Directory parent)"
    and s': "snd (mkdir s p) = s1\<lparr>table := put t pid (Directory (add_child parent name new_id)), clock := clk'\<rparr>"
    by (auto simp: mkdir_def assert_dir_Inr split: sum.splits prod.splits)
  have res': "resolve (table (snd (mkdir s p))) (root_id (snd (mkdir s p))) (intermediate p) = Some pid"
    using tail_resolve [OF w1 tl res] .
  have "tbl (table (snd (mkdir s p))) pid = Some (Directory (add_child parent name new_id))"
    by (simp add: s' put_def)
  moreover have "get_child (add_child parent name new_id) (final_component p) = Inr new_id"
    by (simp add: nm get_child_def add_child_def RBTree_get_set)
  ultimately show ?thesis using mkdir_exists(1) [OF ab res'] by simp
qed

lemma read_file:
  assumes "is_absolute p" and "resolve (table s) (root_id s) (intermediate p) = Some pid"
    and "tbl (table s) pid = Some (Directory parent)"
    and "get_child parent (final_component p) = Inr c"
    and "tbl (table s) c = Some (File f)"
  shows "read s p = (Inr (content f), s)"
  using assms split_path_resolved [OF assms(1,2)]
  by (simp add: read_def assert_dir_def table_get_def)

lemma File_init_content: "File_init i data clk = (f, clk') \<Longrightarrow> content f = data"
  by (auto simp: File_init_def split: prod.splits)

lemma write_then_read:
  assumes "wf s" and "fst (write_vfs s p data) = Inr ()"
  shows "read (snd (write_vfs s p data)) p = (Inr data, snd (write_vfs s p data))"
proof -
  let ?s' = "snd (write_vfs s p data)"
  obtain r s1 where sp: "split_path s p = (r, s1)" by force
  from assms(2) sp obtain pid name where r: "r = Inr (pid, name)"
    by (cases r) (auto simp: write_vfs_def)
  note post = split_path_post [OF assms(1) sp]
  from post r have w1: "wf s1" and ab: "is_absolute p"
    and res: "resolve (table s1) (root_id s1) (intermediate p) = Some pid"
    and nm: "name = final_component p" by auto
  from write_tail [OF sp] r have tl: "tail s1 pid name ?s'" by simp
  have res': "resolve (table ?s') (root_id ?s') (intermediate p) = Some pid"
    using tail_resolve [OF w1 tl res] .
  from assms(2) sp r obtain parent where par: "tbl (table s1) pid = Some (Directory parent)"
    by (auto simp: write_vfs_def assert_dir_Inr split: sum.splits)
  from wf_entry [OF w1 par] have pidlt: "pid < next_id (table s1)" by simp
  from assms(2) sp r par consider
    (ow) cid f where "get_child parent name = Inr cid" "tbl (table s1) cid = Some (File f)"
      "?s' = s1\<lparr>table := put (table s1) cid
               (File (f\<lparr>content := data, meta := (meta f)\<lparr>fsize := int (length data)\<rparr>\<rparr>))\<rparr>"
  | (nw) f0 clk' new_id t where "File_init (- 1) data (clock s1) = (f0, clk')"
      "allocate (table s1) (File f0) = (new_id, t)"
      "?s' = s1\<lparr>table := put t pid (Directory (add_child parent name new_id)), clock := clk'\<rparr>"
    by (auto simp: write_vfs_def write_new_def assert_dir_def table_get_def
        split: sum.splits prod.splits option.splits inode.splits)
  then show ?thesis
  proof cases
    case ow
    from wf_edge [OF w1 par get_child_mem [OF ow(1)]] have "pid < cid" by simp
    then have "tbl (table ?s') pid = Some (Directory parent)" using par by (simp add: ow(3) put_def)
    moreover have "tbl (table ?s') cid =
        Some (File (f\<lparr>content := data, meta := (meta f)\<lparr>fsize := int (length data)\<rparr>\<rparr>))"
      by (simp add: ow(3) put_def)
    ultimately show ?thesis using read_file [OF ab res', of parent cid] ow(1) nm by simp
  next
    case nw
    from nw(2) have n: "new_id = next_id (table s1)"
      and t: "t = \<lparr>next_id = next_id (table s1) + 1,
                  tbl = (tbl (table s1))(next_id (table s1) \<mapsto> set_id (File f0) (next_id (table s1)))\<rparr>"
      by (auto simp: allocate_eq)
    have "tbl (table ?s') pid = Some (Directory (add_child parent name new_id))"
      by (simp add: nw(3) put_def)
    moreover have "get_child (add_child parent name new_id) (final_component p) = Inr new_id"
      by (simp add: nm get_child_def add_child_def RBTree_get_set)
    moreover have "tbl (table ?s') new_id = Some (File (f0\<lparr>inode_id := new_id\<rparr>))"
      using pidlt by (simp add: nw(3) put_def t n)
    ultimately show ?thesis using read_file [OF ab res'] File_init_content [OF nw(1)] by simp
  qed
qed

lemma lookup_Some:
  "lookup s p = Some (c, x) \<longleftrightarrow>
   (\<exists>pid parent. resolve (table s) (root_id s) (intermediate p) = Some pid \<and>
      tbl (table s) pid = Some (Directory parent) \<and>
      get_child parent (final_component p) = Inr c \<and> tbl (table s) c = Some x)"
  by (auto simp: lookup_def split: option.splits inode.splits sum.splits)

lemma write_existing_file:
  assumes "is_absolute p" and "lookup s p = Some (c, File f)"
  shows "write_vfs s p data =
    (Inr (), s\<lparr>table := put (table s) c
        (File (f\<lparr>content := data, meta := (meta f)\<lparr>fsize := int (length data)\<rparr>\<rparr>))\<rparr>)"
proof -
  from assms(2) obtain pid parent where
    r: "resolve (table s) (root_id s) (intermediate p) = Some pid"
    and par: "tbl (table s) pid = Some (Directory parent)"
    and c: "get_child parent (final_component p) = Inr c" and f: "tbl (table s) c = Some (File f)"
    unfolding lookup_Some by blast
  from split_path_resolved [OF assms(1) r] par c f show ?thesis
    by (simp add: write_vfs_def assert_dir_def table_get_def)
qed

lemma write_existing_dir:
  assumes "is_absolute p" and "lookup s p = Some (c, Directory d)"
  shows "write_vfs s p data = (Inl (NotDirectory (final_component p)), s)"
proof -
  from assms(2) obtain pid parent where
    r: "resolve (table s) (root_id s) (intermediate p) = Some pid"
    and par: "tbl (table s) pid = Some (Directory parent)"
    and c: "get_child parent (final_component p) = Inr c" and f: "tbl (table s) c = Some (Directory d)"
    unfolding lookup_Some by blast
  from split_path_resolved [OF assms(1) r] par c f show ?thesis
    by (simp add: write_vfs_def assert_dir_def table_get_def)
qed

lemma walk_fresh: "fresh_at s cur \<Longrightarrow> \<exists>p s1. walk s cur segs = (Inr p, s1) \<and> fresh_at s1 p"
proof (induction segs arbitrary: s cur)
  case Nil
  then show ?case by simp
next
  case (Cons seg segs)
  from Cons.prems obtain d where w: "wf s" and d: "tbl (table s) cur = Some (Directory d)"
    and e: "children d = []" and nf: "\<And>j x. tbl (table s) j = Some x \<Longrightarrow> \<exists>d. x = Directory d"
    unfolding fresh_at_def by blast
  obtain nd clk' where di: "Directory_init (- 1) (clock s) = (nd, clk')" by force
  note nd = Directory_init_children [OF di]
  obtain new_id t where al: "allocate (table s) (Directory nd) = (new_id, t)" by force
  define s2 where "s2 = s\<lparr>table := put t cur (Directory (add_child d seg new_id)), clock := clk'\<rparr>"
  have wk: "walk s cur (seg # segs) = walk s2 new_id segs"
    using d e di al by (simp add: table_get_def get_child_def s2_def)
  have wf2: "wf s2" unfolding s2_def using wf_create [OF w d al] nd by simp
  from al have n: "new_id = next_id (table s)"
    and t: "t = \<lparr>next_id = next_id (table s) + 1, tbl = (tbl (table s))(next_id (table s) \<mapsto> set_id (Directory nd) (next_id (table s)))\<rparr>"
    by (auto simp: allocate_eq)
  from wf_entry [OF w d] have lt: "cur < new_id" using n by simp
  have "tbl (table s2) new_id = Some (Directory (nd\<lparr>inode_id := new_id\<rparr>))"
    using lt by (simp add: s2_def put_def t n)
  moreover have "\<And>j x. tbl (table s2) j = Some x \<Longrightarrow> \<exists>d. x = Directory d"
    using nf by (auto simp: s2_def put_def t n split: if_splits)
  ultimately have "fresh_at s2 new_id" unfolding fresh_at_def using wf2 nd by simp
  from Cons.IH [OF this] wk show ?case by simp
qed

lemma fresh_at_init: "fresh_at (VFS_init clk) (root_id (VFS_init clk))"
  unfolding fresh_at_def using wf_init [of clk]
  by (auto simp: VFS_init_def Directory_init_def Meta_init_def allocate_eq InodeTable_init_def
      split: if_splits)

lemma write_fresh:
  assumes "is_absolute p"
  shows "fst (write_vfs (VFS_init clk) p data) = Inr ()"
proof -
  from walk_fresh [OF fresh_at_init, of clk "butlast (posix_parts p)"] obtain pid s1 where
    w: "walk (VFS_init clk) (root_id (VFS_init clk)) (butlast (posix_parts p)) = (Inr pid, s1)"
    and f: "fresh_at s1 pid" by blast
  from f obtain d where d: "tbl (table s1) pid = Some (Directory d)" and e: "children d = []"
    unfolding fresh_at_def by blast
  from w assms have "split_path (VFS_init clk) p = (Inr (pid, final_component p), s1)"
    by (simp add: split_path_def Let_def final_component_def)
  then show ?thesis using d e
    by (simp add: write_vfs_def write_new_def assert_dir_def table_get_def get_child_def
        split: prod.splits)
qed

lemma resolve_append:
  "resolve t cur (xs @ ys) = Some p \<longleftrightarrow>
   (\<exists>q. resolve t cur xs = Some q \<and> resolve t q ys = Some p)"
  by (induction xs arbitrary: cur) (auto split: option.splits inode.splits sum.splits)

lemma resolve_lt: "wf s \<Longrightarrow> resolve (table s) cur segs = Some p \<Longrightarrow> segs \<noteq> [] \<Longrightarrow> cur < p"
proof (cases segs)
  case Nil
  assume "segs \<noteq> []"
  with Nil show ?thesis by simp
next
  case (Cons seg segs')
  assume w: "wf s" and r: "resolve (table s) cur segs = Some p"
  from r [unfolded Cons resolve_Cons] obtain d c where d: "tbl (table s) cur = Some (Directory d)"
    and c: "get_child d seg = Inr c" and r': "resolve (table s) c segs' = Some p"
    by blast
  from wf_edge [OF w d get_child_mem [OF c]] resolve_le [OF w r'] show ?thesis by simp
qed

lemma walk_cur:
  assumes "wf s" and "walk s cur segs = (r, s1)" and "tbl (table s) cur = Some (Directory d)"
  shows "tbl (table s1) cur = Some (Directory
           (case segs of [] \<Rightarrow> d
            | seg # rest \<Rightarrow> (case get_child d seg of Inr c \<Rightarrow> d
                             | Inl e \<Rightarrow> add_child d seg (next_id (table s)))))"
proof (cases segs)
  case Nil
  with assms show ?thesis by simp
next
  case (Cons seg rest)
  show ?thesis
  proof (cases "get_child d seg")
    case (Inr c)
    with assms Cons have w: "walk s c rest = (r, s1)" by (simp add: table_get_def)
    from wf_edge [OF assms(1,3) get_child_mem [OF Inr]] have "cur < c" by simp
    with walk_post [OF assms(1) w] assms(3) Cons Inr show ?thesis by simp
  next
    case (Inl e)
    obtain nd clk' where di: "Directory_init (- 1) (clock s) = (nd, clk')" by force
    note nd = Directory_init_children [OF di]
    obtain new_id t where al: "allocate (table s) (Directory nd) = (new_id, t)" by force
    define s2 where "s2 = s\<lparr>table := put t cur (Directory (add_child d seg new_id)), clock := clk'\<rparr>"
    from assms Cons Inl di al have w: "walk s2 new_id rest = (r, s1)"
      by (simp add: table_get_def s2_def)
    have wf2: "wf s2" unfolding s2_def using wf_create [OF assms(1,3) al] nd by simp
    from al have n: "new_id = next_id (table s)" by (auto simp: allocate_eq)
    from wf_entry [OF assms(1,3)] have lt: "cur < new_id" using n by simp
    have "tbl (table s2) cur = Some (Directory (add_child d seg new_id))"
      by (simp add: s2_def put_def)
    with walk_post [OF wf2 w] lt Cons Inl n show ?thesis by simp
  qed
qed

lemma walk_new:
  "wf s \<Longrightarrow> walk s cur segs = (Inr p, s1) \<Longrightarrow> k \<le> length segs \<Longrightarrow>
   \<exists>q. resolve (table s1) cur (take k segs) = Some q \<and>
     (resolve (table s) cur (take k segs) = None \<longrightarrow>
        next_id (table s) \<le> q \<and>
        (\<exists>d. tbl (table s1) q = Some (Directory d) \<and>
           map fst (children d) = (if k < length segs then [segs ! k] else [])))"
proof (induction segs arbitrary: s cur k)
  case Nil
  then show ?case by simp
next
  case (Cons seg segs)
  show ?case
  proof (cases k)
    case 0
    then show ?thesis by simp
  next
    case (Suc k')
    with Cons.prems(3) have k': "k' \<le> length segs" by simp
    from Cons.prems(2) obtain d where d: "tbl (table s) cur = Some (Directory d)"
      by (auto simp: table_get_def split: option.splits inode.splits)
    have e3: "(if k < length (seg # segs) then [(seg # segs) ! k] else []) =
              (if k' < length segs then [segs ! k'] else [])"
      using Suc by simp
    show ?thesis
    proof (cases "get_child d seg")
      case (Inr c)
      with d Cons.prems(2) have w: "walk s c segs = (Inr p, s1)" by (simp add: table_get_def)
      from walk_cur [OF Cons.prems(1,2) d] Inr have c1: "tbl (table s1) cur = Some (Directory d)"
        by simp
      have e1: "resolve (table s1) cur (take k (seg # segs)) = resolve (table s1) c (take k' segs)"
        using c1 Inr Suc by simp
      have e2: "resolve (table s) cur (take k (seg # segs)) = resolve (table s) c (take k' segs)"
        using d Inr Suc by simp
      show ?thesis unfolding e1 e2 e3 by (rule Cons.IH [OF Cons.prems(1) w k'])
    next
      case (Inl e)
      obtain nd clk' where di: "Directory_init (- 1) (clock s) = (nd, clk')" by force
      note nd = Directory_init_children [OF di]
      obtain new_id t where al: "allocate (table s) (Directory nd) = (new_id, t)" by force
      define s2 where "s2 = s\<lparr>table := put t cur (Directory (add_child d seg new_id)), clock := clk'\<rparr>"
      from d Inl di al Cons.prems(2) have w: "walk s2 new_id segs = (Inr p, s1)"
        by (simp add: table_get_def s2_def)
      have wf2: "wf s2" unfolding s2_def using wf_create [OF Cons.prems(1) d al] nd by simp
      from al have n: "new_id = next_id (table s)"
        and t: "t = \<lparr>next_id = next_id (table s) + 1, tbl = (tbl (table s))(next_id (table s) \<mapsto> set_id (Directory nd) (next_id (table s)))\<rparr>"
        by (auto simp: allocate_eq)
      from wf_entry [OF Cons.prems(1) d] have lt: "cur < new_id" using n by simp
      have n2: "next_id (table s2) = new_id + 1" by (simp add: s2_def put_def t n)
      have new2: "tbl (table s2) new_id = Some (Directory (nd\<lparr>inode_id := new_id\<rparr>))"
        using lt by (simp add: s2_def put_def t n)
      from walk_cur [OF Cons.prems(1,2) d] Inl n
      have c1: "tbl (table s1) cur = Some (Directory (add_child d seg new_id))" by simp
      have g: "get_child (add_child d seg new_id) seg = Inr new_id"
        by (simp add: get_child_def add_child_def RBTree_get_set)
      have step: "resolve (table s1) cur (take k (seg # segs)) = resolve (table s1) new_id (take k' segs)"
        using c1 g Suc by simp
      show ?thesis
      proof (cases k')
        case 0
        have "tbl (table s1) new_id = Some (Directory
           (case segs of [] \<Rightarrow> nd\<lparr>inode_id := new_id\<rparr>
            | seg' # rest \<Rightarrow> (case get_child (nd\<lparr>inode_id := new_id\<rparr>) seg' of Inr c \<Rightarrow> nd\<lparr>inode_id := new_id\<rparr>
                             | Inl e \<Rightarrow> add_child (nd\<lparr>inode_id := new_id\<rparr>) seg' (next_id (table s2)))))"
          by (rule walk_cur [OF wf2 w new2])
        then have "\<exists>d'. tbl (table s1) new_id = Some (Directory d') \<and>
            map fst (children d') = (if k' < length segs then [segs ! k'] else [])"
          using nd 0 by (cases segs) (auto simp: get_child_def add_child_def)
        moreover have "resolve (table s1) new_id (take k' segs) = Some new_id" using 0 by simp
        ultimately show ?thesis unfolding step e3 using n by simp
      next
        case (Suc k'')
        with k' obtain seg' rest where segs: "segs = seg' # rest" by (cases segs) auto
        have none: "resolve (table s2) new_id (take k' segs) = None"
          using new2 nd by (simp add: segs Suc get_child_def)
        from Cons.IH [OF wf2 w k'] none n2 n show ?thesis unfolding step e3
          by auto
      qed
    qed
  qed
qed

lemma posix_parts_root [simp]: "posix_parts ''/'' = []"
  by (simp add: posix_parts_def)

lemma split_path_root: "split_path s ''/'' = (Inr (root_id s, []), s)"
  by (simp add: split_path_def is_absolute_def)

lemma step_tail:
  assumes "split_path s (path_of x) = (Inr (pid, name), s1)"
  shows "tail s1 pid name (step s x)"
proof (cases x)
  case (Mkdir p)
  with assms have sp: "split_path s p = (Inr (pid, name), s1)" by simp
  from mkdir_tail [OF sp] show ?thesis by (simp add: Mkdir)
next
  case (Touch p)
  with assms have sp: "split_path s p = (Inr (pid, name), s1)" by simp
  from touch_tail [OF sp] show ?thesis by (simp add: Touch)
next
  case (Write p data)
  with assms have sp: "split_path s p = (Inr (pid, name), s1)" by simp
  from write_tail [OF sp, of data] show ?thesis by (simp add: Write)
next
  case (Read p)
  with assms have sp: "split_path s p = (Inr (pid, name), s1)" by simp
  from read_tail [OF sp] show ?thesis by (simp add: Read tail.same)
next
  case (Ls p)
  show ?thesis
  proof (cases "p = ''/''")
    case True
    with Ls assms split_path_root [of s] ls_tail [of s p] show ?thesis by (simp add: tail.same)
  next
    case False
    with Ls assms ls_tail [of s p] show ?thesis by (simp add: tail.same)
  qed
next
  case (Rm p)
  with assms have sp: "split_path s p = (Inr (pid, name), s1)" by simp
  from rm_tail [OF sp] show ?thesis by (simp add: Rm)
qed

lemma tail_pid_dir:
  "tail s1 pid name s' \<Longrightarrow> tbl (table s1) pid = Some (Directory d) \<Longrightarrow>
   \<exists>d'. tbl (table s') pid = Some (Directory d')"
  by (induction rule: tail.induct) (auto simp: put_def)

lemma step_creates:
  assumes "wf s" and "split_path s (path_of x) = (Inr (pid, name), s1)"
    and "k \<le> length (intermediate (path_of x))"
  shows "\<exists>q. resolve (table (step s x)) (root_id s) (take k (intermediate (path_of x))) = Some q \<and>
     (resolve (table s) (root_id s) (take k (intermediate (path_of x))) = None \<longrightarrow>
        next_id (table s) \<le> q \<and>
        (\<exists>d. tbl (table (step s x)) q = Some (Directory d) \<and>
           (k < length (intermediate (path_of x)) \<longrightarrow>
              iter_names d = [intermediate (path_of x) ! k])))"
proof -
  let ?inter = "intermediate (path_of x)"
  let ?s' = "step s x"
  from assms(2) have w: "walk s (root_id s) ?inter = (Inr pid, s1)"
    by (auto simp: split_path_def Let_def intermediate_def split: if_splits sum.splits prod.splits)
  note post = walk_post [OF assms(1) w]
  from post have w1: "wf s1" and res: "resolve (table s1) (root_id s) ?inter = Some pid" by auto
  note tl = step_tail [OF assms(2)]
  note fr = tail_frame [OF tl w1]
  from walk_new [OF assms(1) w assms(3)] obtain q where
    qq: "resolve (table s1) (root_id s) (take k ?inter) = Some q \<and>
      (resolve (table s) (root_id s) (take k ?inter) = None \<longrightarrow>
        next_id (table s) \<le> q \<and>
        (\<exists>d. tbl (table s1) q = Some (Directory d) \<and>
           map fst (children d) = (if k < length ?inter then [?inter ! k] else [])))" ..
  from qq have q: "resolve (table s1) (root_id s) (take k ?inter) = Some q" ..
  have new: "next_id (table s) \<le> q \<and>
        (\<exists>d. tbl (table s1) q = Some (Directory d) \<and>
           map fst (children d) = (if k < length ?inter then [?inter ! k] else []))"
    if "resolve (table s) (root_id s) (take k ?inter) = None"
    using qq that by simp
  from res have "resolve (table s1) (root_id s) (take k ?inter @ drop k ?inter) = Some pid" by simp
  with q have rest: "resolve (table s1) q (drop k ?inter) = Some pid"
    unfolding resolve_append by simp
  from resolve_le [OF w1 rest] have qle: "q \<le> pid" .
  have q': "resolve (table ?s') (root_id s) (take k ?inter) = Some q"
    using resolve_agree [OF w1 q, of "table ?s'"] fr qle by simp
  have fin: "next_id (table s) \<le> q \<and>
        (\<exists>d. tbl (table ?s') q = Some (Directory d) \<and>
           (k < length ?inter \<longrightarrow> iter_names d = [?inter ! k]))"
    if "resolve (table s) (root_id s) (take k ?inter) = None"
  proof -
    from new [OF that] obtain d where n: "next_id (table s) \<le> q"
      and d: "tbl (table s1) q = Some (Directory d)"
      and ch: "map fst (children d) = (if k < length ?inter then [?inter ! k] else [])" by blast
    show ?thesis
    proof (cases "k < length ?inter")
      case True
      then have "drop k ?inter \<noteq> []" by simp
      from resolve_lt [OF w1 rest this] have "q < pid" .
      with fr d have "tbl (table ?s') q = Some (Directory d)" by simp
      with n ch True show ?thesis by (auto simp: iter_names_def RBTree_keys_def)
    next
      case False
      with assms(3) rest have "q = pid" by simp
      with tail_pid_dir [OF tl] d n False show ?thesis by auto
    qed
  qed
  show ?thesis by (rule exI [of _ q]) (use q' fin in simp)
qed

section \<open>Evaluating the operations\<close>

lemmas vfs_eval = VFS_init_def InodeTable_init_def Directory_init_def File_init_def Meta_init_def
  allocate_def table_get_def put_def add_child_def get_child_def del_child_def iter_names_def
  RBTree_keys_def split_path_def is_absolute_def posix_parts_def assert_dir_def
  intermediate_def final_component_def lookup_def Let_def
  mkdir_def touch_def write_vfs_def write_new_def read_def ls_def rm_def

lemma RBTree_del_remove1:
  "RBTree_getitem t k = Inr c \<Longrightarrow> RBTree_delitem t k = Inr (remove1 (k, c) t)"
  by (induction t) (auto split: if_splits)

section \<open>The B-tree loses promoted pivots\<close>

text \<open>
  C2.  There is a sequence of insertions of distinct keys after which a key that was
  inserted and never deleted cannot be found by \<open>get\<close>.  With the default order 64, the keys
  \<open>00\<close> to \<open>62\<close> fill the root leaf, and \<open>get\<close> finds \<open>32\<close>.  The insertion of \<open>63\<close>
  splits the root: \<open>32\<close> is promoted to the new root and stays in the left leaf, \<open>get\<close>
  goes right at the match in the root and raises \<open>KeyError\<close>.
\<close>

theorem pivot_unreachable_after_split:
  "distinct (map fst (map two_digit [0..<64])) \<and>
   (case insert_all (BTree_init 64) (map two_digit [0..<63]) of
      Inl e \<Rightarrow> False
    | Inr t \<Rightarrow> leaf (bt_root t) \<and> BTree_get t ''32'' = Inr 32) \<and>
   (case insert_all (BTree_init 64) (map two_digit [0..<64]) of
      Inl e \<Rightarrow> False
    | Inr t \<Rightarrow> \<not> leaf (bt_root t) \<and> keys (bt_root t) = [''32''] \<and>
        BTree_get t ''32'' = Inl (KeyError (StrKey ''32'')))"
  by code_simp

section \<open>Errors outside the taxonomy\<close>

text \<open>
  C4.  On a fresh namespace \<open>ls("/missing")\<close> raises the \<open>KeyError\<close> of the directory
  index, which is none of the five kinds, where \<open>read("/missing")\<close> raises
  \<open>FileNotFound\<close>.
\<close>

theorem ls_missing_raises_KeyError:
  "fst (ls (VFS_init clk) ''/missing'') = Inl (KeyError (StrKey ''missing'')) \<and>
   kind_of (KeyError (StrKey ''missing'')) = None \<and>
   fst (read (VFS_init clk) ''/missing'') = Inl (FileNotFound ''missing'')"
  by (simp add: ls_def read_def VFS_init_def split_path_def is_absolute_def posix_parts_def
      table_get_def allocate_def InodeTable_init_def Directory_init_def Meta_init_def
      get_child_def assert_dir_def)

section \<open>Overwriting a file\<close>

text \<open>
  C5, as the code has it.  When the path names an existing file, \<open>write\<close> returns and
  changes one entry of the table only, the file's: its content becomes the data and its size
  the length of the data, while \<open>created\<close>, \<open>modified\<close>, \<open>perms\<close> and the identity
  keep their values; nothing is allocated and the clock is not read.  When the path names an
  existing directory, \<open>write\<close> raises \<open>NotDirectory\<close> and leaves the state as it was.
\<close>

theorem write_overwrites_in_place:
  assumes "is_absolute p"
  shows "(lookup s p = Some (c, File f) \<longrightarrow>
           write_vfs s p data =
             (Inr (), s\<lparr>table := put (table s) c
                (File (f\<lparr>content := data, meta := (meta f)\<lparr>fsize := int (length data)\<rparr>\<rparr>))\<rparr>)) \<and>
         (lookup s p = Some (c, Directory d) \<longrightarrow>
           write_vfs s p data = (Inl (NotDirectory (final_component p)), s))"
  using write_existing_file [OF assms] write_existing_dir [OF assms] by blast

text \<open>The theorem at the file \<open>/f\<close> made by \<open>touch\<close> on a fresh namespace.\<close>

theorem write_overwrites_in_place_witness:
  "is_absolute ''/f'' \<and>
   lookup (snd (touch (VFS_init id) ''/f'')) ''/f'' =
     Some (1, File \<lparr>inode_id = 1, is_dir = False,
                    meta = \<lparr>created = 2, modified = 3, fsize = 0, perms = ''rw''\<rparr>, content = []\<rparr>) \<and>
   fst (write_vfs (snd (touch (VFS_init id) ''/f'')) ''/f'' [1, 2, 3]) = Inr () \<and>
   tbl (table (snd (write_vfs (snd (touch (VFS_init id) ''/f'')) ''/f'' [1, 2, 3]))) 1 =
     Some (File \<lparr>inode_id = 1, is_dir = False,
                 meta = \<lparr>created = 2, modified = 3, fsize = 3, perms = ''rw''\<rparr>, content = [1, 2, 3]\<rparr>)"
proof -
  have a: "is_absolute ''/f''" by (simp add: is_absolute_def)
  have l: "lookup (snd (touch (VFS_init id) ''/f'')) ''/f'' =
     Some (1, File \<lparr>inode_id = 1, is_dir = False,
                    meta = \<lparr>created = 2, modified = 3, fsize = 0, perms = ''rw''\<rparr>, content = []\<rparr>)"
    by (simp add: vfs_eval)
  from write_overwrites_in_place [OF a, of "snd (touch (VFS_init id) ''/f'')" 1 _ "[1, 2, 3]"] l
  show ?thesis using a by (simp add: put_def)
qed

text \<open>
  C5 as stated fails: after \<open>touch("/f")\<close> and \<open>write("/f", b"\x01\x02\x03")\<close> under the
  clock that returns 0, 1, 2, ..., the file has size 3 and still the \<open>modified\<close> value 3 of
  its creation, although the clock stood at 4 when \<open>write\<close> was called.
\<close>

theorem write_keeps_modified_counterexample:
  "lookup (snd (write_vfs (snd (touch (VFS_init id) ''/f'')) ''/f'' [1, 2, 3])) ''/f'' =
     Some (1, File \<lparr>inode_id = 1, is_dir = False,
                    meta = \<lparr>created = 2, modified = 3, fsize = 3, perms = ''rw''\<rparr>, content = [1, 2, 3]\<rparr>) \<and>
   clock (snd (touch (VFS_init id) ''/f'')) 0 = 4"
  by (simp add: vfs_eval)

section \<open>Creating a name twice\<close>

text \<open>
  C6.  In every state reached from a fresh namespace, when \<open>mkdir(p)\<close> returns, a second
  \<open>mkdir(p)\<close> raises \<open>FileExists\<close>.  And in any state, when the intermediate components
  of an absolute path lead to a directory whose index has the final component, whatever the
  child is, both \<open>mkdir\<close> and \<open>touch\<close> raise \<open>FileExists\<close> and leave the state as it
  was.
\<close>

theorem mkdir_touch_AlreadyExists:
  "(fst (mkdir (run (VFS_init clk) xs) p) = Inr () \<longrightarrow>
      fst (mkdir (snd (mkdir (run (VFS_init clk) xs) p)) p) = Inl (FileExists (final_component p))) \<and>
   (is_absolute p \<and> resolve (table s) (root_id s) (intermediate p) = Some pid \<and>
    tbl (table s) pid = Some (Directory parent) \<and> get_child parent (final_component p) = Inr c \<longrightarrow>
      mkdir s p = (Inl (FileExists (final_component p)), s) \<and>
      touch s p = (Inl (FileExists (final_component p)), s))"
  using mkdir_twice [OF wf_reachable] mkdir_exists by blast

text \<open>The theorem at \<open>/docs\<close> on a fresh namespace.\<close>

theorem mkdir_touch_AlreadyExists_witness:
  "fst (mkdir (run (VFS_init id) []) ''/docs'') = Inr () \<and>
   fst (mkdir (snd (mkdir (run (VFS_init id) []) ''/docs'')) ''/docs'') = Inl (FileExists ''docs'') \<and>
   fst (touch (snd (mkdir (VFS_init id) ''/docs'')) ''/docs'') = Inl (FileExists ''docs'')"
proof -
  have a: "fst (mkdir (run (VFS_init id) []) ''/docs'') = Inr ()" by (simp add: vfs_eval)
  have f: "final_component ''/docs'' = ''docs''" by (simp add: vfs_eval)
  have b: "is_absolute ''/docs'' \<and>
    resolve (table (snd (mkdir (VFS_init id) ''/docs''))) (root_id (snd (mkdir (VFS_init id) ''/docs'')))
      (intermediate ''/docs'') = Some 0 \<and>
    tbl (table (snd (mkdir (VFS_init id) ''/docs''))) 0 =
      Some (Directory \<lparr>inode_id = 0, is_dir = True,
         meta = \<lparr>created = 0, modified = 1, fsize = 0, perms = ''rw''\<rparr>, children = [(''docs'', 1)]\<rparr>) \<and>
    get_child \<lparr>inode_id = 0, is_dir = True,
         meta = \<lparr>created = 0, modified = 1, fsize = 0, perms = ''rw''\<rparr>, children = [(''docs'', 1)]\<rparr>
       (final_component ''/docs'') = Inr 1"
    by (simp add: vfs_eval)
  from mkdir_touch_AlreadyExists [of id "[]" "''/docs''" "snd (mkdir (VFS_init id) ''/docs'')" 0
      "\<lparr>inode_id = 0, is_dir = True,
         meta = \<lparr>created = 0, modified = 1, fsize = 0, perms = ''rw''\<rparr>, children = [(''docs'', 1)]\<rparr>" 1]
    a b f
  show ?thesis by simp
qed

section \<open>Reading back what was written\<close>

text \<open>
  C7.  In every state reached from a fresh namespace, for every path and every byte sequence,
  when \<open>write(p, data)\<close> returns, \<open>read(p)\<close> on the state it leaves returns exactly the
  data.  On the fresh namespace itself \<open>write\<close> returns for every absolute path.
\<close>

theorem write_read_roundtrip:
  "(fst (write_vfs (run (VFS_init clk) xs) p data) = Inr () \<longrightarrow>
      fst (read (snd (write_vfs (run (VFS_init clk) xs) p data)) p) = Inr data) \<and>
   (is_absolute p \<longrightarrow> fst (write_vfs (VFS_init clk) p data) = Inr ())"
  using write_then_read [OF wf_reachable] write_fresh by simp

text \<open>The theorem at \<open>/a/x.bin\<close> with the bytes FF 00 FE, which are not UTF-8.\<close>

theorem write_read_roundtrip_witness:
  "is_absolute ''/a/x.bin'' \<and>
   fst (write_vfs (run (VFS_init id) []) ''/a/x.bin'' [255, 0, 254]) = Inr () \<and>
   fst (read (snd (write_vfs (run (VFS_init id) []) ''/a/x.bin'' [255, 0, 254])) ''/a/x.bin'') =
     Inr [255, 0, 254]"
proof -
  have a: "is_absolute ''/a/x.bin''" by (simp add: is_absolute_def)
  from write_read_roundtrip [of id "[]" "''/a/x.bin''" "[255, 0, 254]"] a
  show ?thesis by simp
qed

section \<open>Intermediate directories\<close>

text \<open>
  C8.  Let \<open>x\<close> be any of the six operations, run in a state reached from a fresh namespace,
  and let \<open>_split_path\<close> return for its path.  Then in the state the operation leaves,
  whether it returns or raises, every prefix of the intermediate components leads to an
  inode; and where the prefix led nowhere before, the inode is a directory allocated by this
  operation which, unless it is the last one, holds exactly the next component.
  In particular \<open>touch("/a/b/c.txt")\<close> on a fresh namespace is seen by \<open>ls\<close> of \<open>/\<close>,
  \<open>/a\<close> and \<open>/a/b\<close>.
\<close>

theorem intermediate_directories_created:
  "(fst (split_path (run (VFS_init clk) xs) (path_of x)) = Inr (pid, name) \<and>
    k \<le> length (intermediate (path_of x)) \<longrightarrow>
    (\<exists>q. resolve (table (step (run (VFS_init clk) xs) x)) (root_id (run (VFS_init clk) xs))
            (take k (intermediate (path_of x))) = Some q \<and>
       (resolve (table (run (VFS_init clk) xs)) (root_id (run (VFS_init clk) xs))
            (take k (intermediate (path_of x))) = None \<longrightarrow>
          next_id (table (run (VFS_init clk) xs)) \<le> q \<and>
          (\<exists>d. tbl (table (step (run (VFS_init clk) xs) x)) q = Some (Directory d) \<and>
             (k < length (intermediate (path_of x)) \<longrightarrow>
                iter_names d = [intermediate (path_of x) ! k]))))) \<and>
   fst (touch (VFS_init clk) ''/a/b/c.txt'') = Inr () \<and>
   fst (ls (snd (touch (VFS_init clk) ''/a/b/c.txt'')) ''/'') = Inr [''a''] \<and>
   fst (ls (snd (touch (VFS_init clk) ''/a/b/c.txt'')) ''/a'') = Inr [''b''] \<and>
   fst (ls (snd (touch (VFS_init clk) ''/a/b/c.txt'')) ''/a/b'') = Inr [''c.txt'']"
proof -
  have "\<exists>q. resolve (table (step (run (VFS_init clk) xs) x)) (root_id (run (VFS_init clk) xs))
            (take k (intermediate (path_of x))) = Some q \<and>
       (resolve (table (run (VFS_init clk) xs)) (root_id (run (VFS_init clk) xs))
            (take k (intermediate (path_of x))) = None \<longrightarrow>
          next_id (table (run (VFS_init clk) xs)) \<le> q \<and>
          (\<exists>d. tbl (table (step (run (VFS_init clk) xs) x)) q = Some (Directory d) \<and>
             (k < length (intermediate (path_of x)) \<longrightarrow>
                iter_names d = [intermediate (path_of x) ! k])))"
    if a: "fst (split_path (run (VFS_init clk) xs) (path_of x)) = Inr (pid, name)"
      and b: "k \<le> length (intermediate (path_of x))"
  proof -
    obtain s1 where "split_path (run (VFS_init clk) xs) (path_of x) = (Inr (pid, name), s1)"
      using a by (cases "split_path (run (VFS_init clk) xs) (path_of x)") auto
    from step_creates [OF wf_reachable this b] show ?thesis .
  qed
  moreover have "fst (touch (VFS_init clk) ''/a/b/c.txt'') = Inr ()"
    "fst (ls (snd (touch (VFS_init clk) ''/a/b/c.txt'')) ''/'') = Inr [''a'']"
    "fst (ls (snd (touch (VFS_init clk) ''/a/b/c.txt'')) ''/a'') = Inr [''b'']"
    "fst (ls (snd (touch (VFS_init clk) ''/a/b/c.txt'')) ''/a/b'') = Inr [''c.txt'']"
    by (simp_all add: vfs_eval)
  ultimately show ?thesis by blast
qed

text \<open>The theorem at \<open>read("/x/y/z")\<close> on a fresh namespace: the operation raises
  \<open>FileNotFound\<close> and leaves the directory \<open>/x\<close>, which holds \<open>y\<close>.\<close>

theorem intermediate_directories_created_witness:
  "fst (split_path (run (VFS_init id) []) (path_of (Read ''/x/y/z''))) = Inr (2, ''z'') \<and>
   (\<exists>q. resolve (table (step (run (VFS_init id) []) (Read ''/x/y/z''))) 0 [''x''] = Some q \<and>
      1 \<le> q \<and>
      (\<exists>d. tbl (table (step (run (VFS_init id) []) (Read ''/x/y/z''))) q = Some (Directory d) \<and>
         iter_names d = [''y'']))"
proof -
  have a: "fst (split_path (run (VFS_init id) []) (path_of (Read ''/x/y/z''))) = Inr (2, ''z'')"
    by (simp add: vfs_eval)
  have b: "intermediate (path_of (Read ''/x/y/z'')) = [''x'', ''y'']" by (simp add: vfs_eval)
  have c: "resolve (table (run (VFS_init id) [])) (root_id (run (VFS_init id) [])) [''x''] = None"
    "root_id (run (VFS_init id) []) = 0" "next_id (table (run (VFS_init id) [])) = 1"
    by (simp_all add: vfs_eval)
  from intermediate_directories_created [of id "[]" "Read ''/x/y/z''" 2 "''z''" 1] a
  show ?thesis unfolding b using c by simp
qed

section \<open>The inode table only grows\<close>

text \<open>
  C9.  Every identity that \<open>InodeTable.get\<close> resolves in a state reached from a fresh
  namespace is resolved after any further sequence of operations; \<open>allocate\<close> stores the
  inode under the identity it returns; and when \<open>rm\<close> returns, the state it leaves is the
  state after \<open>_split_path\<close> with the pair of the name and its identity removed from the
  index of the parent, nothing else.
\<close>

theorem inode_table_never_shrinks:
  "(table_get (table (run (VFS_init clk) xs)) i = Inr x \<longrightarrow>
      (\<exists>y. table_get (table (run (VFS_init clk) (xs @ ys))) i = Inr y)) \<and>
   table_get (snd (allocate t n)) (fst (allocate t n)) = Inr (set_id n (next_id t)) \<and>
   (split_path s p = (Inr (pid, name), s1) \<and> fst (rm s p) = Inr () \<longrightarrow>
      (\<exists>parent c. tbl (table s1) pid = Some (Directory parent) \<and> get_child parent name = Inr c \<and>
         snd (rm s p) = s1\<lparr>table := put (table s1) pid
            (Directory (parent\<lparr>children := remove1 (name, c) (children parent)\<rparr>))\<rparr>))"
proof (intro conjI impI)
  assume "table_get (table (run (VFS_init clk) xs)) i = Inr x"
  then have "i \<in> dom (tbl (table (run (VFS_init clk) xs)))"
    by (auto simp: table_get_def split: option.splits)
  with run_post [OF wf_reachable, of clk xs ys]
  have "i \<in> dom (tbl (table (run (VFS_init clk) (xs @ ys))))" by (simp add: run_append)
  then show "\<exists>y. table_get (table (run (VFS_init clk) (xs @ ys))) i = Inr y"
    by (auto simp: table_get_def)
next
  show "table_get (snd (allocate t n)) (fst (allocate t n)) = Inr (set_id n (next_id t))"
    by (simp add: allocate_eq table_get_def)
next
  assume "split_path s p = (Inr (pid, name), s1) \<and> fst (rm s p) = Inr ()"
  then show "\<exists>parent c. tbl (table s1) pid = Some (Directory parent) \<and> get_child parent name = Inr c \<and>
         snd (rm s p) = s1\<lparr>table := put (table s1) pid
            (Directory (parent\<lparr>children := remove1 (name, c) (children parent)\<rparr>))\<rparr>"
    by (auto simp: rm_def assert_dir_Inr del_child_def get_child_def RBTree_del_remove1
        split: sum.splits)
qed

text \<open>The theorem at \<open>touch("/f")\<close> followed by \<open>rm("/f")\<close>: the root is empty again and
  the identity 1 of the file is still resolved.\<close>

theorem inode_table_never_shrinks_witness:
  "table_get (table (run (VFS_init id) [Touch ''/f''])) 1 =
     Inr (File \<lparr>inode_id = 1, is_dir = False,
                 meta = \<lparr>created = 2, modified = 3, fsize = 0, perms = ''rw''\<rparr>, content = []\<rparr>) \<and>
   fst (ls (run (VFS_init id) ([Touch ''/f''] @ [Rm ''/f''])) ''/'') = Inr [] \<and>
   (\<exists>y. table_get (table (run (VFS_init id) ([Touch ''/f''] @ [Rm ''/f'']))) 1 = Inr y)"
proof -
  have a: "table_get (table (run (VFS_init id) [Touch ''/f''])) 1 =
     Inr (File \<lparr>inode_id = 1, is_dir = False,
                 meta = \<lparr>created = 2, modified = 3, fsize = 0, perms = ''rw''\<rparr>, content = []\<rparr>)"
    by (simp add: vfs_eval)
  have b: "fst (ls (run (VFS_init id) ([Touch ''/f''] @ [Rm ''/f''])) ''/'') = Inr []"
    by (simp add: vfs_eval)
  from inode_table_never_shrinks [of id "[Touch ''/f'']" 1 _ "[Rm ''/f'']"] a b
  show ?thesis by blast
qed

section \<open>The id field of a stored inode\<close>

text \<open>
  C10.  In every state reached from a fresh namespace, the inode stored under an identity
  has that identity in its \<open>id\<close> field, and the identity is not negative.  \<open>allocate\<close>
  returns \<open>_next_id\<close>, stores the inode with its \<open>id\<close> field set to it and adds one to
  \<open>_next_id\<close>, which starts at 0.
\<close>

theorem stored_id_is_identity:
  "(tbl (table (run (VFS_init clk) xs)) i = Some x \<longrightarrow> get_id x = i \<and> 0 \<le> i) \<and>
   allocate t n = (next_id t,
     \<lparr>next_id = next_id t + 1, tbl = (tbl t)(next_id t \<mapsto> set_id n (next_id t))\<rparr>) \<and>
   get_id (set_id n (next_id t)) = next_id t \<and>
   next_id InodeTable_init = 0"
  using wf_entry [OF wf_reachable, of clk xs i x] allocate_eq [of t n]
  by (simp add: InodeTable_init_def)

text \<open>The theorem at the file made by \<open>mkdir("/d")\<close> and \<open>write("/d/f", b"\x07")\<close>.\<close>

theorem stored_id_is_identity_witness:
  "tbl (table (run (VFS_init id) [Mkdir ''/d'', Write ''/d/f'' [7]])) 2 =
     Some (File \<lparr>inode_id = 2, is_dir = False,
                 meta = \<lparr>created = 4, modified = 5, fsize = 1, perms = ''rw''\<rparr>, content = [7]\<rparr>) \<and>
   get_id (File \<lparr>inode_id = 2, is_dir = False,
                 meta = \<lparr>created = 4, modified = 5, fsize = 1, perms = ''rw''\<rparr>, content = [7]\<rparr>) = 2"
proof -
  have a: "tbl (table (run (VFS_init id) [Mkdir ''/d'', Write ''/d/f'' [7]])) 2 =
     Some (File \<lparr>inode_id = 2, is_dir = False,
                 meta = \<lparr>created = 4, modified = 5, fsize = 1, perms = ''rw''\<rparr>, content = [7]\<rparr>)"
    by (simp add: vfs_eval)
  from stored_id_is_identity [of id "[Mkdir ''/d'', Write ''/d/f'' [7]]" 2] a
  show ?thesis by simp
qed

end
